theory Spec2Isabelle
  imports Main "HOL-Library.Sublist" "HOL-Library.AList"
begin

section \<open>Strings and the character database\<close>

text \<open>
  A Python \<^verbatim>\<open>str\<close> is a sequence of Unicode code points; \<^verbatim>\<open>len\<close> counts code
  points. A code point is a natural number, a string a list of them.
\<close>

type_synonym uchar = nat
type_synonym ustring = "uchar list"

definition ustr :: "string \<Rightarrow> ustring" where
  "ustr s = map of_char s"

text \<open>
  The scripts call into \<^verbatim>\<open>unicodedata\<close>, \<^verbatim>\<open>str\<close> and \<^verbatim>\<open>re\<close>, whose behaviour
  on code points from 128 upwards is given by the tables of the Unicode character
  database. Those tables are not part of the repository: they are a parameter. On
  ASCII the behaviour is fixed and written out below.
\<close>

record unicode_db =
  nfkd_nonascii :: "ustring \<Rightarrow> ustring"
  lower_nonascii :: "ustring \<Rightarrow> ustring"
  space_nonascii :: "uchar \<Rightarrow> bool"
  decimal_nonascii :: "uchar \<Rightarrow> bool"
  digit_value_nonascii :: "uchar \<Rightarrow> nat"

definition is_ascii :: "uchar \<Rightarrow> bool" where
  "is_ascii c = (c < 128)"

definition ascii_lower :: "uchar \<Rightarrow> uchar" where
  "ascii_lower c = (if 65 \<le> c \<and> c \<le> 90 then c + 32 else c)"

text \<open>\<^verbatim>\<open>unicodedata.normalize("NFKD", s)\<close>: no ASCII character decomposes.\<close>

definition nfkd :: "unicode_db \<Rightarrow> ustring \<Rightarrow> ustring" where
  "nfkd U s = (if list_all is_ascii s then s else nfkd_nonascii U s)"

text \<open>\<^verbatim>\<open>s.encode("ascii", "ignore").decode("ascii")\<close>\<close>

definition encode_ascii_ignore :: "ustring \<Rightarrow> ustring" where
  "encode_ascii_ignore s = filter is_ascii s"

text \<open>\<^verbatim>\<open>s.lower()\<close>\<close>

definition str_lower :: "unicode_db \<Rightarrow> ustring \<Rightarrow> ustring" where
  "str_lower U s = (if list_all is_ascii s then map ascii_lower s else lower_nonascii U s)"

text \<open>The regular expression class \<^verbatim>\<open>\s\<close> and the characters \<^verbatim>\<open>str.strip()\<close> removes.\<close>

definition is_space :: "unicode_db \<Rightarrow> uchar \<Rightarrow> bool" where
  "is_space U c =
     (if is_ascii c then (9 \<le> c \<and> c \<le> 13) \<or> (28 \<le> c \<and> c \<le> 32) else space_nonascii U c)"

text \<open>The regular expression class \<^verbatim>\<open>\d\<close>, and the value \<^verbatim>\<open>int\<close> gives a digit.\<close>

definition is_decimal :: "unicode_db \<Rightarrow> uchar \<Rightarrow> bool" where
  "is_decimal U c = (if is_ascii c then 48 \<le> c \<and> c \<le> 57 else decimal_nonascii U c)"

definition digit_value :: "unicode_db \<Rightarrow> uchar \<Rightarrow> nat" where
  "digit_value U c = (if is_ascii c then c - 48 else digit_value_nonascii U c)"

text \<open>The class \<^verbatim>\<open>[a-z0-9]\<close>.\<close>

definition is_lower_alnum :: "uchar \<Rightarrow> bool" where
  "is_lower_alnum c = ((97 \<le> c \<and> c \<le> 122) \<or> (48 \<le> c \<and> c \<le> 57))"

text \<open>
  \<^verbatim>\<open>re.sub(r"[...]+", rep, s)\<close> for a one-character class: scanning from the left, every
  maximal run of characters of the class is replaced by \<open>rep\<close>.
\<close>

function re_sub_runs :: "('a \<Rightarrow> bool) \<Rightarrow> 'a list \<Rightarrow> 'a list \<Rightarrow> 'a list" where
  "re_sub_runs P rep [] = []"
| "re_sub_runs P rep (c # cs) =
     (if P c then rep @ re_sub_runs P rep (dropWhile P cs) else c # re_sub_runs P rep cs)"
  by pat_completeness auto
termination
  by (relation "measure (\<lambda>(P, rep, s). length s)")
     (auto simp: length_dropWhile_le less_Suc_eq_le)

text \<open>\<^verbatim>\<open>s.strip(chars)\<close>: the characters are removed from both ends.\<close>

definition strip_chars :: "('a \<Rightarrow> bool) \<Rightarrow> 'a list \<Rightarrow> 'a list" where
  "strip_chars P s = rev (dropWhile P (rev (dropWhile P s)))"

section \<open>The name normalizer\<close>

definition underscore :: uchar where
  "underscore = 95"

definition normalize_name :: "unicode_db \<Rightarrow> ustring \<Rightarrow> ustring" where
  "normalize_name U raw_name =
     (let normalized = nfkd U raw_name;
          normalized = encode_ascii_ignore normalized;
          normalized = str_lower U normalized;
          normalized = re_sub_runs (\<lambda>c. \<not> is_lower_alnum c) [underscore] normalized;
          normalized = strip_chars (\<lambda>c. c = underscore)
                         (re_sub_runs (\<lambda>c. c = underscore) [underscore] normalized)
      in normalized)"

text \<open>
  The pattern \<^verbatim>\<open>[a-z0-9]+(_[a-z0-9]+)*\<close> over the whole string: a non-empty run of
  \<^verbatim>\<open>[a-z0-9]\<close>, then either the end or an underscore followed by the pattern again.
\<close>

function matches_slug :: "ustring \<Rightarrow> bool" where
  "matches_slug s =
     (takeWhile is_lower_alnum s \<noteq> [] \<and>
      (case dropWhile is_lower_alnum s of
         [] \<Rightarrow> True
       | c # rest \<Rightarrow> c = underscore \<and> matches_slug rest))"
  by pat_completeness auto
termination
proof (relation "measure length")
  fix s :: ustring and c rest
  assume "dropWhile is_lower_alnum s = c # rest"
  then have "length (c # rest) \<le> length s"
    by (metis length_dropWhile_le)
  then show "(rest, s) \<in> measure length"
    by simp
qed simp

declare matches_slug.simps [simp del]

text \<open>
  The shape of a string in which every character is of \<^verbatim>\<open>[a-z0-9_]\<close> and no two
  underscores are adjacent.
\<close>

fun single_underscores :: "ustring \<Rightarrow> bool" where
  "single_underscores [] = True"
| "single_underscores [c] = (is_lower_alnum c \<or> c = underscore)"
| "single_underscores (c # d # cs) =
     ((is_lower_alnum c \<or> c = underscore) \<and> (c = underscore \<longrightarrow> d \<noteq> underscore) \<and>
      single_underscores (d # cs))"

section \<open>The candidate selector\<close>

text \<open>
  The character class of the separator pattern, as the source file has it:
  \<^verbatim>\<open>-\<close>, \<^verbatim>\<open>|\<close>, \<^verbatim>\<open>:\<close>, and the three code points U+00E2, U+20AC and U+201D.
  The em dash U+2014 is not among them.
\<close>

definition is_separator :: "uchar \<Rightarrow> bool" where
  "is_separator c = (c = 45 \<or> c = 124 \<or> c = 58 \<or> c = 226 \<or> c = 8364 \<or> c = 8221)"

text \<open>
  \<^verbatim>\<open>re.split(r"\s[...]\s", title)[0]\<close>: the text before the leftmost place where a
  whitespace character, a character of the class and a whitespace character follow
  each other; the whole title when there is no such place.
\<close>

fun split_first :: "unicode_db \<Rightarrow> ustring \<Rightarrow> ustring" where
  "split_first U (a # b # c # rest) =
     (if is_space U a \<and> is_separator b \<and> is_space U c then []
      else a # split_first U (b # c # rest))"
| "split_first U s = s"

text \<open>Line 63: \<^verbatim>\<open>candidate = re.split(r"\s[...]\s", title)[0].strip()\<close>\<close>

definition candidate_of :: "unicode_db \<Rightarrow> ustring \<Rightarrow> ustring" where
  "candidate_of U title = strip_chars (is_space U) (split_first U title)"

definition STOP_PHRASES :: "ustring list" where
  "STOP_PHRASES =
     [ustr ''pluggy'', ustr ''connector'', ustr ''connector icons'', ustr ''connector-icons'',
      ustr ''svg'', ustr ''icon'', ustr ''logo'', ustr ''vector'', ustr ''brand'']"

fun pick_name_from_titles :: "unicode_db \<Rightarrow> ustring list \<Rightarrow> ustring option" where
  "pick_name_from_titles U [] = None"
| "pick_name_from_titles U (title # titles) =
     (let candidate = candidate_of U title;
          lower = str_lower U candidate
      in if list_ex (\<lambda>phrase. sublist phrase lower) STOP_PHRASES
           then pick_name_from_titles U titles
         else if list_ex (is_decimal U) candidate
           then pick_name_from_titles U titles
         else if length candidate < 3 \<or> length candidate > 60
           then pick_name_from_titles U titles
         else Some candidate)"

text \<open>
  The filters in the words of the specification: a candidate is rejected when its
  lowercase form contains a stop word, when it contains a digit, or when its length is
  outside 3 to 60.
\<close>

definition contains_stop_word :: "unicode_db \<Rightarrow> ustring \<Rightarrow> bool" where
  "contains_stop_word U candidate =
     list_ex (\<lambda>phrase. sublist phrase (str_lower U candidate)) STOP_PHRASES"

definition rejected :: "unicode_db \<Rightarrow> ustring \<Rightarrow> bool" where
  "rejected U candidate =
     (contains_stop_word U candidate \<or> list_ex (is_decimal U) candidate \<or>
      length candidate < 3 \<or> 60 < length candidate)"

text \<open>
  The place of a separator in the words of the specification: position \<open>i\<close> of the
  title holds a whitespace character, position \<open>i + 1\<close> a hyphen, a vertical bar or a
  colon, position \<open>i + 2\<close> a whitespace character.
\<close>

definition separator_at :: "unicode_db \<Rightarrow> ustring \<Rightarrow> nat \<Rightarrow> bool" where
  "separator_at U title i =
     (i + 2 < length title \<and> is_space U (title ! i) \<and>
      (title ! (i + 1) = 45 \<or> title ! (i + 1) = 124 \<or> title ! (i + 1) = 58) \<and>
      is_space U (title ! (i + 2)))"

text \<open>The three code points of the class that are no ASCII character, and the em dash.\<close>

definition is_dash_variant :: "uchar \<Rightarrow> bool" where
  "is_dash_variant c = (c = 226 \<or> c = 8364 \<or> c = 8221 \<or> c = 8212)"

section \<open>The environment and the state of a run\<close>

datatype exn = Transport_error | File_not_found

text \<open>
  What the scripts print:
  \<^item> \<open>Dir_not_found\<close>: \<^verbatim>\<open>Directory '...' not found.\<close>
  \<^item> \<open>No_files\<close>: \<^verbatim>\<open>No SVG files found to rename.\<close>
  \<^item> \<open>Skipped_no_match filename\<close>: \<^verbatim>\<open>Skipped {filename}: no confident match.\<close>
  \<^item> \<open>Skipped_target_exists filename new_name\<close>: \<^verbatim>\<open>Skipped {filename}: target exists ({new_name}).\<close>
  \<^item> \<open>Renamed filename new_name\<close>: \<^verbatim>\<open>Renamed {filename} -> {new_name}\<close>
  \<^item> \<open>Network_error icon_id\<close>: \<^verbatim>\<open>Network error while fetching {url}: {exc}\<close>
  \<^item> \<open>Stopped_on icon_id\<close>: \<^verbatim>\<open>Stopped on id {icon_id} (download failed).\<close>
  \<^item> \<open>Downloaded icon_id\<close>: \<^verbatim>\<open>Downloaded {icon_id}.svg\<close>
\<close>

datatype message =
    Dir_not_found
  | No_files
  | Skipped_no_match ustring
  | Skipped_target_exists ustring ustring
  | Renamed ustring ustring
  | Network_error nat
  | Stopped_on nat
  | Downloaded nat

text \<open>
  What a run does to the outside, in order: a search query sent, a request to the CDN
  for an identifier, a pause of a second, a line printed.
\<close>

datatype event = Queried ustring | Requested nat | Slept | Printed message

text \<open>
  The state a script runs in: the state \<open>world\<close> of the search service, whether the
  directory \<^verbatim>\<open>connector-icons\<close> exists, its entries (name and content, in the order
  \<^verbatim>\<open>os.listdir\<close> gives them; every entry is a regular file) and the events so far.
\<close>

record ('w, 'c) state =
  world :: 'w
  dir_exists :: bool
  files :: "(ustring \<times> 'c) list"
  trace :: "event list"

text \<open>
  What the namer takes from outside the repository: the character database, the
  function \<^verbatim>\<open>re.findall(pattern, content, flags=re.IGNORECASE | re.DOTALL)\<close>, the
  search (the request \<^verbatim>\<open>fetch_search_results\<close> sends and the titles it extracts from
  the answer, or the exception \<^verbatim>\<open>urlopen\<close> raises), and the decoding of a file's
  content with \<^verbatim>\<open>errors="ignore"\<close>.
\<close>

record ('w, 'c) environment =
  udb :: unicode_db
  re_findall :: "ustring \<Rightarrow> ustring \<Rightarrow> ustring list"
  fetch_search_results :: "'w \<Rightarrow> ustring \<Rightarrow> (exn + ustring list) \<times> 'w"
  read_text :: "'c \<Rightarrow> ustring"

definition emit :: "event \<Rightarrow> ('w, 'c) state \<Rightarrow> ('w, 'c) state" where
  "emit ev s = s\<lparr>trace := trace s @ [ev]\<rparr>"

section \<open>The hint extractor\<close>

definition extract_hints :: "('w, 'c) environment \<Rightarrow> ustring \<Rightarrow> ustring list" where
  "extract_hints E svg_content =
     concat (map (\<lambda>pattern.
         filter (\<lambda>cleaned. cleaned \<noteq> [])
           (map (\<lambda>m. strip_chars (is_space (udb E))
                        (re_sub_runs (is_space (udb E)) (ustr '' '') m))
                (re_findall E pattern svg_content)))
       [ustr ''<title>(.*?)</title>'', ustr ''<desc>(.*?)</desc>''])"

section \<open>The institution identifier\<close>

definition build_queries :: "ustring \<Rightarrow> ustring list \<Rightarrow> ustring list" where
  "build_queries icon_id hints =
     [ustr ''pluggy connector '' @ icon_id @ ustr '' svg bank''] @
     (if hints \<noteq> [] then [hd hints @ ustr '' logo''] else [])"

text \<open>
  The body of the loop after the search has answered: the slug it returns, if any. A
  candidate that is \<^verbatim>\<open>None\<close> or empty, and a slug that is empty, are falsy.
\<close>

definition slug_of_titles :: "unicode_db \<Rightarrow> ustring list \<Rightarrow> ustring option" where
  "slug_of_titles U titles =
     (case pick_name_from_titles U titles of
        None \<Rightarrow> None
      | Some candidate \<Rightarrow>
          if candidate = [] then None
          else (let normalized = normalize_name U candidate
                in if normalized = [] then None else Some normalized))"

fun try_queries ::
  "('w, 'c) environment \<Rightarrow> ustring list \<Rightarrow> ('w, 'c) state \<Rightarrow> (exn + ustring option) \<times> ('w, 'c) state"
where
  "try_queries E [] s = (Inr None, s)"
| "try_queries E (query # queries) s =
     (case fetch_search_results E (world s) query of
        (Inl e, w) \<Rightarrow> (Inl e, emit (Queried query) (s\<lparr>world := w\<rparr>))
      | (Inr titles, w) \<Rightarrow>
          (case slug_of_titles (udb E) titles of
             Some normalized \<Rightarrow> (Inr (Some normalized), emit (Queried query) (s\<lparr>world := w\<rparr>))
           | None \<Rightarrow> try_queries E queries (emit Slept (emit (Queried query) (s\<lparr>world := w\<rparr>)))))"

definition identify_institution ::
  "('w, 'c) environment \<Rightarrow> ustring \<Rightarrow> ustring list \<Rightarrow> ('w, 'c) state \<Rightarrow>
   (exn + ustring option) \<times> ('w, 'c) state"
where
  "identify_institution E icon_id hints s = try_queries E (build_queries icon_id hints) s"

section \<open>The renaming driver\<close>

text \<open>
  \<^verbatim>\<open>re.match(r"^\d+\.svg$", name)\<close>: digits, then \<^verbatim>\<open>.svg\<close>, then the end of the name or
  a single newline before it.
\<close>

definition scan_match :: "unicode_db \<Rightarrow> ustring \<Rightarrow> bool" where
  "scan_match U name =
     (takeWhile (is_decimal U) name \<noteq> [] \<and>
      (dropWhile (is_decimal U) name = ustr ''.svg'' \<or>
       dropWhile (is_decimal U) name = ustr ''.svg'' @ [10]))"

text \<open>\<^verbatim>\<open>name.split(".")[0]\<close>\<close>

definition split_dot_head :: "ustring \<Rightarrow> ustring" where
  "split_dot_head name = takeWhile (\<lambda>c. c \<noteq> 46) name"

text \<open>\<^verbatim>\<open>int(s)\<close> on a string of decimal digits.\<close>

definition py_int :: "unicode_db \<Rightarrow> ustring \<Rightarrow> nat" where
  "py_int U s = foldl (\<lambda>acc c. 10 * acc + digit_value U c) 0 s"

text \<open>\<^verbatim>\<open>os.rename(path, new_path)\<close> inside the directory.\<close>

definition rename_file :: "ustring \<Rightarrow> ustring \<Rightarrow> ('w, 'c) state \<Rightarrow> ('w, 'c) state" where
  "rename_file filename new_name s =
     s\<lparr>files := map (\<lambda>(n, c). if n = filename then (new_name, c) else (n, c)) (files s)\<rparr>"

text \<open>
  The body of the loop of \<^verbatim>\<open>main\<close> for one file. \<^verbatim>\<open>continue\<close> and the end of the body
  are \<open>Inr\<close>, an exception is \<open>Inl\<close>.
\<close>

definition process_file ::
  "('w, 'c) environment \<Rightarrow> ustring \<Rightarrow> ('w, 'c) state \<Rightarrow> (exn + unit) \<times> ('w, 'c) state"
where
  "process_file E filename s =
     (let icon_id = split_dot_head filename in
      case map_of (files s) filename of
        None \<Rightarrow> (Inl File_not_found, s)
      | Some content \<Rightarrow>
          (let hints = extract_hints E (read_text E content) in
           case identify_institution E icon_id hints s of
             (Inl e, s1) \<Rightarrow> (Inl e, s1)
           | (Inr None, s1) \<Rightarrow> (Inr (), emit (Printed (Skipped_no_match filename)) s1)
           | (Inr (Some institution), s1) \<Rightarrow>
               if institution = [] then (Inr (), emit (Printed (Skipped_no_match filename)) s1)
               else (let new_name = icon_id @ ustr ''_'' @ institution @ ustr ''.svg'' in
                     if new_name \<in> set (map fst (files s1))
                       then (Inr (), emit (Printed (Skipped_target_exists filename new_name)) s1)
                     else (Inr (), emit Slept (emit (Printed (Renamed filename new_name))
                                     (rename_file filename new_name s1))))))"

fun rename_loop ::
  "('w, 'c) environment \<Rightarrow> ustring list \<Rightarrow> ('w, 'c) state \<Rightarrow> (exn + unit) \<times> ('w, 'c) state"
where
  "rename_loop E [] s = (Inr (), s)"
| "rename_loop E (filename # rest) s =
     (case process_file E filename s of
        (Inl e, s1) \<Rightarrow> (Inl e, s1)
      | (Inr u, s1) \<Rightarrow> rename_loop E rest s1)"

text \<open>\<^verbatim>\<open>main\<close> of \<^verbatim>\<open>rename_connector_svgs.py\<close>, with its exit code.\<close>

definition main_rename ::
  "('w, 'c) environment \<Rightarrow> ('w, 'c) state \<Rightarrow> (exn + nat) \<times> ('w, 'c) state"
where
  "main_rename E s =
     (if \<not> dir_exists s then (Inr 1, emit (Printed Dir_not_found) s)
      else (let svg_files = filter (scan_match (udb E)) (map fst (files s)) in
            if svg_files = [] then (Inr 0, emit (Printed No_files) s)
            else (case rename_loop E
                         (sort_key (\<lambda>name. py_int (udb E) (split_dot_head name)) svg_files) s of
                    (Inl e, s1) \<Rightarrow> (Inl e, s1)
                  | (Inr u, s1) \<Rightarrow> (Inr 0, s1))))"

text \<open>The file a printed line of the loop is about.\<close>

fun message_file :: "message \<Rightarrow> ustring" where
  "message_file (Skipped_no_match filename) = filename"
| "message_file (Skipped_target_exists filename new_name) = filename"
| "message_file (Renamed filename new_name) = filename"
| "message_file m = []"

fun printed :: "event list \<Rightarrow> message list" where
  "printed [] = []"
| "printed (Printed m # evs) = m # printed evs"
| "printed (ev # evs) = printed evs"

fun queried :: "event list \<Rightarrow> ustring list" where
  "queried [] = []"
| "queried (Queried q # evs) = q # queried evs"
| "queried (ev # evs) = queried evs"

fun requested :: "event list \<Rightarrow> nat list" where
  "requested [] = []"
| "requested (Requested i # evs) = i # requested evs"
| "requested (ev # evs) = requested evs"

section \<open>The fetcher\<close>

text \<open>
  What \<^verbatim>\<open>request.urlopen(url)\<close> and \<^verbatim>\<open>response.read()\<close> give for an identifier: a
  response with its status and body, an \<^verbatim>\<open>HTTPError\<close>, or another \<^verbatim>\<open>URLError\<close>. A run
  requests an identifier at most once, so the answer is a function of the identifier.
\<close>

datatype 'c http_result = Response nat 'c | HTTPError | URLError

text \<open>\<^verbatim>\<open>f"{icon_id}"\<close>: the decimal digits of a number.\<close>

fun decimal_digits :: "nat \<Rightarrow> ustring" where
  "decimal_digits n =
     (if n < 10 then [48 + n] else decimal_digits (n div 10) @ [48 + n mod 10])"

declare decimal_digits.simps [simp del]

definition svg_name :: "nat \<Rightarrow> ustring" where
  "svg_name icon_id = decimal_digits icon_id @ ustr ''.svg''"

text \<open>
  \<^verbatim>\<open>download_svg\<close>. Opening the output file raises when the directory does not exist;
  \<^verbatim>\<open>main\<close> creates it first.
\<close>

definition download_svg ::
  "(nat \<Rightarrow> 'c http_result) \<Rightarrow> nat \<Rightarrow> ('w, 'c) state \<Rightarrow> (exn + bool) \<times> ('w, 'c) state"
where
  "download_svg cdn icon_id s =
     (let s1 = emit (Requested icon_id) s in
      case cdn icon_id of
        Response status content \<Rightarrow>
          if status \<noteq> 200 then (Inr False, s1)
          else if \<not> dir_exists s1 then (Inl File_not_found, s1)
          else (Inr True, s1\<lparr>files := AList.update (svg_name icon_id) content (files s1)\<rparr>)
      | HTTPError \<Rightarrow> (Inr False, s1)
      | URLError \<Rightarrow> (Inr False, emit (Printed (Network_error icon_id)) s1))"

text \<open>The loop \<^verbatim>\<open>while True\<close> of \<^verbatim>\<open>main\<close>: it returns only when a download fails.\<close>

partial_function (option) download_loop ::
  "(nat \<Rightarrow> 'c http_result) \<Rightarrow> nat \<Rightarrow> ('w, 'c) state \<Rightarrow> ((exn + unit) \<times> ('w, 'c) state) option"
where
  "download_loop cdn icon_id s =
     (case download_svg cdn icon_id s of
        (Inl e, s1) \<Rightarrow> Some (Inl e, s1)
      | (Inr success, s1) \<Rightarrow>
          if \<not> success then Some (Inr (), emit (Printed (Stopped_on icon_id)) s1)
          else download_loop cdn (icon_id + 1) (emit (Printed (Downloaded icon_id)) s1))"

text \<open>\<^verbatim>\<open>main\<close> of \<^verbatim>\<open>download_connector_svgs.py\<close>, with its exit code.\<close>

definition main_download ::
  "(nat \<Rightarrow> 'c http_result) \<Rightarrow> ('w, 'c) state \<Rightarrow> ((exn + nat) \<times> ('w, 'c) state) option"
where
  "main_download cdn s =
     (case download_loop cdn 201 (s\<lparr>dir_exists := True\<rparr>) of
        None \<Rightarrow> None
      | Some (Inl e, s1) \<Rightarrow> Some (Inl e, s1)
      | Some (Inr u, s1) \<Rightarrow> Some (Inr 0, s1))"

section \<open>The specification's account of the namer\<close>

text \<open>
  The institution identifier in the words of the specification: the first query is
  sent; when its titles give a slug, the slug is returned and nothing else is sent;
  otherwise, and only when there is a hint, the second query, made of the first hint,
  is sent; nothing is returned when no query sent gave a slug.
\<close>

definition identify_spec ::
  "('w, 'c) environment \<Rightarrow> ustring \<Rightarrow> ustring list \<Rightarrow> ('w, 'c) state \<Rightarrow>
   (exn + ustring option) \<times> ('w, 'c) state"
where
  "identify_spec E icon_id hints s =
     (let query1 = ustr ''pluggy connector '' @ icon_id @ ustr '' svg bank'';
          answer1 = fetch_search_results E (world s) query1;
          s1 = emit (Queried query1) (s\<lparr>world := snd answer1\<rparr>)
      in case fst answer1 of
           Inl e \<Rightarrow> (Inl e, s1)
         | Inr titles1 \<Rightarrow>
             (case slug_of_titles (udb E) titles1 of
                Some slug \<Rightarrow> (Inr (Some slug), s1)
              | None \<Rightarrow>
                  if hints = [] then (Inr None, emit Slept s1)
                  else (let query2 = hd hints @ ustr '' logo'';
                            answer2 = fetch_search_results E (snd answer1) query2;
                            s2 = emit (Queried query2) ((emit Slept s1)\<lparr>world := snd answer2\<rparr>)
                        in case fst answer2 of
                             Inl e \<Rightarrow> (Inl e, s2)
                           | Inr titles2 \<Rightarrow>
                               (case slug_of_titles (udb E) titles2 of
                                  Some slug \<Rightarrow> (Inr (Some slug), s2)
                                | None \<Rightarrow> (Inr None, emit Slept s2)))))"

text \<open>
  An entry of the directory before and after a run: the content is the same, and the
  name is the same or went from a name the scan matches to a name of the form
  \<^verbatim>\<open>{identifier}_....svg\<close> that the scan does not match.
\<close>

definition same_or_renamed :: "unicode_db \<Rightarrow> ustring \<times> 'c \<Rightarrow> ustring \<times> 'c \<Rightarrow> bool" where
  "same_or_renamed U old new =
     (snd new = snd old \<and>
      (fst new = fst old \<or>
       (scan_match U (fst old) \<and> \<not> scan_match U (fst new) \<and>
        prefix (split_dot_head (fst old) @ ustr ''_'') (fst new) \<and>
        suffix (ustr ''.svg'') (fst new))))"

section \<open>Sample data\<close>

text \<open>
  A small part of the character database, to run the definitions on examples: the
  decompositions of U+00FA and U+00E3, the lowercase of Latin-1 capitals, two
  whitespace characters, the Arabic-Indic digits.
\<close>

definition sample_db :: unicode_db where
  "sample_db =
     \<lparr>nfkd_nonascii =
        (\<lambda>s. concat (map (\<lambda>c. if c = 250 then [117, 769] else if c = 227 then [97, 771] else [c]) s)),
      lower_nonascii =
        map (\<lambda>c. if (65 \<le> c \<and> c \<le> 90) \<or> (192 \<le> c \<and> c \<le> 222 \<and> c \<noteq> 215) then c + 32 else c),
      space_nonascii = (\<lambda>c. c = 133 \<or> c = 160),
      decimal_nonascii = (\<lambda>c. 1632 \<le> c \<and> c \<le> 1641),
      digit_value_nonascii = (\<lambda>c. c - 1632)\<rparr>"

text \<open>A CDN that has the icons 201 and 202 and answers 404 from 203 on.\<close>

definition sample_cdn :: "nat \<Rightarrow> ustring http_result" where
  "sample_cdn i = (if i < 203 then Response 200 (ustr ''<svg/>'') else HTTPError)"

text \<open>The state before the first run: no directory, nothing printed.\<close>

definition initial_state :: "(unit, ustring) state" where
  "initial_state = \<lparr>world = (), dir_exists = False, files = [], trace = []\<rparr>"

text \<open>
  A search service that knows one query, and a table of \<^verbatim>\<open>re.findall\<close> for one file
  content.
\<close>

definition sample_env :: "(unit, ustring) environment" where
  "sample_env =
     \<lparr>udb = sample_db,
      re_findall = (\<lambda>pattern content.
         if pattern = ustr ''<title>(.*?)</title>'' \<and> content = ustr ''<svg><title>Nubank</title></svg>''
         then [ustr ''Nubank''] else []),
      fetch_search_results = (\<lambda>w query.
         if query = ustr ''pluggy connector 201 svg bank''
         then (Inr [ustr ''Nubank - Wikipedia'', ustr ''Nu Pagamentos connector icon''], w)
         else (Inr [], w)),
      read_text = (\<lambda>content. content)\<rparr>"

text \<open>The same with a search service that is down.\<close>

definition failing_env :: "(unit, ustring) environment" where
  "failing_env = sample_env\<lparr>fetch_search_results := (\<lambda>w query. (Inl Transport_error, w))\<rparr>"

definition two_files :: "(unit, ustring) state" where
  "two_files =
     \<lparr>world = (), dir_exists = True,
      files = [(ustr ''201.svg'', ustr ''<svg><title>Nubank</title></svg>''),
               (ustr ''202.svg'', ustr ''<svg/>'')],
      trace = []\<rparr>"

definition collision :: "(unit, ustring) state" where
  "collision =
     \<lparr>world = (), dir_exists = True,
      files = [(ustr ''201.svg'', ustr ''<svg><title>Nubank</title></svg>''),
               (ustr ''201_nubank.svg'', ustr ''<svg/>'')],
      trace = []\<rparr>"

section \<open>Events\<close>

lemma requested_append: "requested (xs @ ys) = requested xs @ requested ys"
  by (induction xs rule: requested.induct) auto

lemma printed_append: "printed (xs @ ys) = printed xs @ printed ys"
  by (induction xs rule: printed.induct) auto

lemma queried_append: "queried (xs @ ys) = queried xs @ queried ys"
  by (induction xs rule: queried.induct) auto

section \<open>Properties of the name normalizer\<close>

lemma alnum_not_underscore: "is_lower_alnum c \<Longrightarrow> c \<noteq> underscore"
  by (auto simp: is_lower_alnum_def underscore_def)

lemma single_underscores_Cons:
  "single_underscores (c # t) =
     ((is_lower_alnum c \<or> c = underscore) \<and> (c = underscore \<longrightarrow> t = [] \<or> hd t \<noteq> underscore) \<and>
      single_underscores t)"
  by (cases t) auto

lemma re_sub_runs_after_run:
  "re_sub_runs P rep (dropWhile P cs) = [] \<or> \<not> P (hd (re_sub_runs P rep (dropWhile P cs)))"
proof (cases "dropWhile P cs")
  case Nil
  then show ?thesis by (simp del: dropWhile_eq_Nil_conv)
next
  case (Cons a l)
  then have "\<not> P a" by (simp add: dropWhile_eq_Cons_conv)
  with Cons show ?thesis by simp
qed

lemma single_underscores_sub:
  "single_underscores (re_sub_runs (\<lambda>c. \<not> is_lower_alnum c) [underscore] s)"
proof (induction "\<lambda>c. \<not> is_lower_alnum c" "[underscore]" s rule: re_sub_runs.induct)
  case 1
  show ?case by simp
next
  case (2 c cs)
  show ?case
  proof (cases "is_lower_alnum c")
    case True
    with 2 show ?thesis
      by (simp add: single_underscores_Cons alnum_not_underscore)
  next
    case False
    let ?r = "dropWhile (\<lambda>c. \<not> is_lower_alnum c) cs"
    have su: "single_underscores (re_sub_runs (\<lambda>c. \<not> is_lower_alnum c) [underscore] ?r)"
      using 2 False by simp
    have "re_sub_runs (\<lambda>c. \<not> is_lower_alnum c) [underscore] ?r = [] \<or>
          hd (re_sub_runs (\<lambda>c. \<not> is_lower_alnum c) [underscore] ?r) \<noteq> underscore"
      using re_sub_runs_after_run [of "\<lambda>c. \<not> is_lower_alnum c" "[underscore]" cs]
      by (auto simp: is_lower_alnum_def underscore_def)
    with su False show ?thesis
      by (simp add: single_underscores_Cons)
  qed
qed

lemma single_underscores_sub_alnum_id:
  "single_underscores t \<Longrightarrow> re_sub_runs (\<lambda>c. \<not> is_lower_alnum c) [underscore] t = t"
proof (induction t rule: single_underscores.induct)
  case (3 c d cs)
  then show ?case
    by (cases "is_lower_alnum d") (auto simp: alnum_not_underscore)
qed auto

lemma single_underscores_sub_underscore_id:
  "single_underscores t \<Longrightarrow> re_sub_runs (\<lambda>c. c = underscore) [underscore] t = t"
  by (induction t rule: single_underscores.induct) auto

lemma single_underscores_tl: "single_underscores (c # t) \<Longrightarrow> single_underscores t"
  by (simp add: single_underscores_Cons)

lemma single_underscores_dropWhile:
  "single_underscores t \<Longrightarrow> single_underscores (dropWhile P t)"
  by (induction t) (auto dest: single_underscores_tl)

lemma single_underscores_snoc:
  "single_underscores (t @ [c]) =
     (single_underscores t \<and> (is_lower_alnum c \<or> c = underscore) \<and>
      (c = underscore \<longrightarrow> t = [] \<or> last t \<noteq> underscore))"
  by (induction t rule: single_underscores.induct) auto

lemma single_underscores_rev: "single_underscores t \<Longrightarrow> single_underscores (rev t)"
proof (induction t)
  case (Cons c t)
  then show ?case
    by (auto simp: single_underscores_Cons single_underscores_snoc last_rev)
qed simp

lemma single_underscores_strip:
  "single_underscores t \<Longrightarrow> single_underscores (strip_chars P t)"
  by (simp add: strip_chars_def single_underscores_rev single_underscores_dropWhile)

lemma strip_chars_ends:
  "strip_chars P t = [] \<or> (\<not> P (hd (strip_chars P t)) \<and> \<not> P (last (strip_chars P t)))"
proof (cases "strip_chars P t = []")
  case False
  let ?z = "dropWhile P t"
  let ?w = "dropWhile P (rev ?z)"
  from False have w: "?w \<noteq> []"
    by (simp add: strip_chars_def)
  then have z: "?z \<noteq> []"
    by (cases "?z = []") auto
  have "\<not> P (hd ?w)" using w hd_dropWhile by blast
  then have l: "\<not> P (last (strip_chars P t))"
    using w by (simp add: strip_chars_def last_rev)
  have "\<not> P (hd ?z)" using z hd_dropWhile by blast
  moreover have "last ?w = last (rev ?z)"
    using w by (metis dropWhile_last dropWhile_eq_Nil_conv)
  ultimately have "\<not> P (hd (strip_chars P t))"
    using w z by (simp add: strip_chars_def hd_rev last_rev)
  with l show ?thesis by simp
qed simp

lemma strip_chars_id:
  assumes t: "t \<noteq> []" and h: "\<not> P (hd t)" and l: "\<not> P (last t)"
  shows "strip_chars P t = t"
proof -
  have 1: "dropWhile P t = t"
    using h by (simp add: dropWhile_eq_self_iff)
  have "\<not> P (hd (rev t))"
    using t l by (simp add: hd_rev)
  then have 2: "dropWhile P (rev t) = rev t"
    by (simp add: dropWhile_eq_self_iff)
  show ?thesis
    by (simp add: strip_chars_def 1 2)
qed

lemma matches_slug_form:
  "single_underscores y \<Longrightarrow> y \<noteq> [] \<Longrightarrow> hd y \<noteq> underscore \<Longrightarrow> last y \<noteq> underscore \<Longrightarrow>
   matches_slug y"
proof (induction y rule: matches_slug.induct)
  case (1 s)
  from "1.prems" have hd_alnum: "is_lower_alnum (hd s)"
    by (cases s) (auto simp: single_underscores_Cons)
  with "1.prems" have tw: "takeWhile is_lower_alnum s \<noteq> []"
    by (cases s) auto
  show ?case
  proof (cases "dropWhile is_lower_alnum s")
    case Nil
    with tw show ?thesis
      by (simp add: matches_slug.simps [of s] del: dropWhile_eq_Nil_conv)
  next
    case (Cons c rest)
    have su: "single_underscores (c # rest)"
      using "1.prems"(1) single_underscores_dropWhile [of s is_lower_alnum] Cons by simp
    have "\<not> is_lower_alnum c"
      using Cons hd_dropWhile [of is_lower_alnum s] by auto
    with su have c: "c = underscore"
      by (auto simp: single_underscores_Cons)
    have "last (c # rest) = last s"
      using Cons by (metis dropWhile_last dropWhile_eq_Nil_conv list.distinct(1))
    with c "1.prems" have rest: "rest \<noteq> []" by auto
    with su c have hd: "hd rest \<noteq> underscore" and su': "single_underscores rest"
      by (auto simp: single_underscores_Cons)
    have "last rest = last s"
      using \<open>last (c # rest) = last s\<close> rest by simp
    with "1.prems" have "last rest \<noteq> underscore" by simp
    with "1.IH" [OF Cons] su' rest hd have "matches_slug rest" by simp
    with tw c Cons show ?thesis by (simp add: matches_slug.simps)
  qed
qed

lemma normalize_name_form:
  "single_underscores (normalize_name U x) \<and>
   (normalize_name U x = [] \<or>
     (hd (normalize_name U x) \<noteq> underscore \<and> last (normalize_name U x) \<noteq> underscore))"
proof -
  let ?t = "re_sub_runs (\<lambda>c. \<not> is_lower_alnum c) [underscore]
              (str_lower U (encode_ascii_ignore (nfkd U x)))"
  have su: "single_underscores ?t" by (rule single_underscores_sub)
  have eq: "normalize_name U x = strip_chars (\<lambda>c. c = underscore) ?t"
    by (simp add: normalize_name_def Let_def single_underscores_sub_underscore_id [OF su])
  show ?thesis
    unfolding eq using strip_chars_ends [of "\<lambda>c. c = underscore" ?t] single_underscores_strip [OF su]
    by auto
qed

lemma single_underscores_ascii: "single_underscores t \<Longrightarrow> list_all is_ascii t"
  by (induction t rule: single_underscores.induct)
     (auto simp: is_ascii_def is_lower_alnum_def underscore_def)

lemma single_underscores_lower: "single_underscores t \<Longrightarrow> map ascii_lower t = t"
  by (induction t rule: single_underscores.induct)
     (auto simp: ascii_lower_def is_lower_alnum_def underscore_def)

lemma normalize_name_fixed:
  assumes su: "single_underscores y"
    and ends: "y = [] \<or> (hd y \<noteq> underscore \<and> last y \<noteq> underscore)"
  shows "normalize_name U y = y"
proof -
  have a: "list_all is_ascii y" using su by (rule single_underscores_ascii)
  then have 1: "nfkd U y = y" by (simp add: nfkd_def)
  have 2: "encode_ascii_ignore y = y"
    using a by (simp add: encode_ascii_ignore_def list_all_iff)
  have 3: "str_lower U y = y"
    using a su by (simp add: str_lower_def single_underscores_lower)
  have 4: "strip_chars (\<lambda>c. c = underscore) y = y"
    using ends by (cases "y = []") (auto simp: strip_chars_id, simp add: strip_chars_def)
  show ?thesis
    by (simp add: normalize_name_def Let_def 1 2 3 4 single_underscores_sub_alnum_id [OF su]
        single_underscores_sub_underscore_id [OF su])
qed

text \<open>
  C3: normalization is idempotent: normalizing the output of the normalizer gives that
  output again, for every input string and every character database.
\<close>

theorem normalize_name_idempotent:
  "normalize_name U (normalize_name U x) = normalize_name U x"
  using normalize_name_form [of U x] by (intro normalize_name_fixed) auto

theorem normalize_name_idempotent_witness:
  "normalize_name sample_db (normalize_name sample_db (ustr ''Ita'' @ [250] @ ustr '' Unibanco S.A.''))
     = ustr ''itau_unibanco_s_a''"
proof -
  have "normalize_name sample_db (ustr ''Ita'' @ [250] @ ustr '' Unibanco S.A.'')
          = ustr ''itau_unibanco_s_a''"
    by code_simp
  then show ?thesis
    using normalize_name_idempotent [of sample_db "ustr ''Ita'' @ [250] @ ustr '' Unibanco S.A.''"]
    by simp
qed

text \<open>
  C4: for every input string the output of the normalizer is empty or matches the
  pattern \<^verbatim>\<open>^[a-z0-9]+(_[a-z0-9]+)*$\<close>.
\<close>

theorem normalize_name_charset:
  "normalize_name U x = [] \<or> matches_slug (normalize_name U x)"
  using normalize_name_form [of U x] matches_slug_form [of "normalize_name U x"] by blast

theorem normalize_name_charset_witness:
  "normalize_name sample_db (ustr ''  Banco--do  Brasil S.A. __'') = ustr ''banco_do_brasil_s_a'' \<and>
   matches_slug (normalize_name sample_db (ustr ''  Banco--do  Brasil S.A. __''))"
proof -
  have e: "normalize_name sample_db (ustr ''  Banco--do  Brasil S.A. __'') = ustr ''banco_do_brasil_s_a''"
    by code_simp
  have "ustr ''banco_do_brasil_s_a'' \<noteq> []"
    by (simp add: ustr_def)
  with e show ?thesis
    using normalize_name_charset [of sample_db "ustr ''  Banco--do  Brasil S.A. __''"]
    by simp
qed

section \<open>Properties of the candidate selector\<close>

lemmas sample_eval = ustr_def is_space_def is_ascii_def is_decimal_def is_separator_def
  sample_db_def candidate_of_def strip_chars_def str_lower_def ascii_lower_def

lemma separator_at_Suc: "separator_at U (a # t) (Suc i) = separator_at U t i"
  by (simp add: separator_at_def)

lemma separator_at_0:
  "separator_at U (a # b # c # rest) 0 =
     (is_space U a \<and> (b = 45 \<or> b = 124 \<or> b = 58) \<and> is_space U c)"
  by (simp add: separator_at_def)

lemma separator_at_short: "length t < 3 \<Longrightarrow> \<not> separator_at U t i"
  by (simp add: separator_at_def)

lemma is_separator_plain:
  "\<not> is_dash_variant b \<Longrightarrow> is_separator b = (b = 45 \<or> b = 124 \<or> b = 58)"
  by (auto simp: is_separator_def is_dash_variant_def)

lemma split_first_take:
  "list_all (\<lambda>c. \<not> is_dash_variant c) title \<Longrightarrow> separator_at U title i \<Longrightarrow>
   (\<forall>j<i. \<not> separator_at U title j) \<Longrightarrow> split_first U title = take i title"
proof (induction U title arbitrary: i rule: split_first.induct)
  case (1 U a b c rest)
  show ?case
  proof (cases "separator_at U (a # b # c # rest) 0")
    case True
    with "1.prems" have "i = 0" by (cases i) auto
    with True "1.prems"(1) show ?thesis
      by (simp add: separator_at_0 is_separator_plain)
  next
    case False
    with "1.prems" obtain i' where i: "i = Suc i'" by (cases i) auto
    from False "1.prems"(1) have ns: "\<not> (is_space U a \<and> is_separator b \<and> is_space U c)"
      by (simp add: separator_at_0 is_separator_plain)
    have "split_first U (b # c # rest) = take i' (b # c # rest)"
    proof (rule "1.IH")
      show "\<not> (is_space U a \<and> is_separator b \<and> is_space U c)" by (rule ns)
      show "list_all (\<lambda>c. \<not> is_dash_variant c) (b # c # rest)" using "1.prems"(1) by simp
      show "separator_at U (b # c # rest) i'" using "1.prems"(2) i by (simp add: separator_at_Suc)
      show "\<forall>j<i'. \<not> separator_at U (b # c # rest) j"
        using "1.prems"(3) i separator_at_Suc [of U a "b # c # rest"] by auto
    qed
    with ns i show ?thesis by simp
  qed
qed (simp_all add: separator_at_def)

lemma split_first_whole:
  "list_all (\<lambda>c. \<not> is_dash_variant c) title \<Longrightarrow> (\<forall>j. \<not> separator_at U title j) \<Longrightarrow>
   split_first U title = title"
proof (induction U title rule: split_first.induct)
  case (1 U a b c rest)
  from "1.prems"(2) have "\<not> separator_at U (a # b # c # rest) 0" by blast
  with "1.prems"(1) have ns: "\<not> (is_space U a \<and> is_separator b \<and> is_space U c)"
    by (simp add: separator_at_0 is_separator_plain)
  have "\<forall>j. \<not> separator_at U (b # c # rest) j"
    using "1.prems"(2) separator_at_Suc [of U a "b # c # rest"] by blast
  with "1.IH" [OF ns] "1.prems"(1) have "split_first U (b # c # rest) = b # c # rest"
    by simp
  with ns show ?case by simp
qed simp_all

text \<open>
  C2, as amended: for every title that holds none of the code points U+00E2, U+20AC,
  U+201D and U+2014, the candidate is the text before the first place where a hyphen, a
  vertical bar or a colon stands between two whitespace characters, with the whitespace
  at both ends removed; it is the whole title, with the whitespace at both ends removed,
  when there is no such place.
\<close>

theorem candidate_of_separator:
  assumes "list_all (\<lambda>c. \<not> is_dash_variant c) title"
  shows "(separator_at U title i \<and> (\<forall>j<i. \<not> separator_at U title j) \<longrightarrow>
            candidate_of U title = strip_chars (is_space U) (take i title)) \<and>
         ((\<forall>j. \<not> separator_at U title j) \<longrightarrow>
            candidate_of U title = strip_chars (is_space U) title)"
proof (intro conjI impI)
  assume "separator_at U title i \<and> (\<forall>j<i. \<not> separator_at U title j)"
  with assms have "split_first U title = take i title"
    by (intro split_first_take) auto
  then show "candidate_of U title = strip_chars (is_space U) (take i title)"
    by (simp add: candidate_of_def)
next
  assume "\<forall>j. \<not> separator_at U title j"
  with assms have "split_first U title = title"
    by (intro split_first_whole) auto
  then show "candidate_of U title = strip_chars (is_space U) title"
    by (simp add: candidate_of_def)
qed

theorem candidate_of_separator_witness:
  "separator_at sample_db (ustr ''Nubank  - Wikipedia'') 7 \<and>
   candidate_of sample_db (ustr ''Nubank  - Wikipedia'') = ustr ''Nubank''"
proof -
  have a: "list_all (\<lambda>c. \<not> is_dash_variant c) (ustr ''Nubank  - Wikipedia'')"
    by (simp add: ustr_def is_dash_variant_def)
  have b: "separator_at sample_db (ustr ''Nubank  - Wikipedia'') 7"
    by (simp add: separator_at_def ustr_def is_space_def is_ascii_def)
  have "\<forall>j\<in>set [0..<7]. \<not> separator_at sample_db (ustr ''Nubank  - Wikipedia'') j"
    by (simp add: separator_at_def ustr_def is_space_def is_ascii_def upt_rec)
  then have c: "\<forall>j<7. \<not> separator_at sample_db (ustr ''Nubank  - Wikipedia'') j"
    by simp
  have d: "strip_chars (is_space sample_db) (take 7 (ustr ''Nubank  - Wikipedia'')) = ustr ''Nubank''"
    by (simp add: sample_eval)
  from a b c d candidate_of_separator [OF a, of sample_db 7] show ?thesis
    by simp
qed

text \<open>
  C2 as stated fails: a vertical bar between two spaces splits a title that holds no
  hyphen, no colon and no em dash.
\<close>

theorem candidate_of_pipe_counterexample:
  "list_all (\<lambda>c. c \<noteq> 45 \<and> c \<noteq> 58 \<and> c \<noteq> 8212) (ustr ''Inter | Banco digital'') \<and>
   candidate_of sample_db (ustr ''Inter | Banco digital'') = ustr ''Inter'' \<and>
   candidate_of sample_db (ustr ''Inter | Banco digital'') \<noteq> ustr ''Inter | Banco digital''"
  by (simp add: sample_eval)

text \<open>
  An em dash between two spaces does not split the title: the class in the source holds
  the code points U+00E2, U+20AC and U+201D in its place, and each of them does.
\<close>

lemma candidate_of_em_dash:
  "candidate_of sample_db (ustr ''Nubank '' @ [8212] @ ustr '' Wikipedia'')
     = ustr ''Nubank '' @ [8212] @ ustr '' Wikipedia''"
  by (simp add: sample_eval)

lemma candidate_of_euro_sign:
  "candidate_of sample_db (ustr ''Nubank '' @ [8364] @ ustr '' Wikipedia'') = ustr ''Nubank''"
  by (simp add: sample_eval)

lemma pick_name_from_titles_find:
  "pick_name_from_titles U titles =
     List.find (\<lambda>candidate. \<not> rejected U candidate) (map (candidate_of U) titles)"
  by (induction titles) (auto simp: rejected_def contains_stop_word_def Let_def)

text \<open>
  C5: the selector returns the candidate of the first title whose candidate is not
  rejected, and nothing when every candidate is rejected; a candidate is rejected when
  its lowercase form contains a stop word, when it contains a digit, or when its length
  is below 3 or above 60.
\<close>

theorem pick_name_from_titles_first_accepted:
  "pick_name_from_titles U titles =
     List.find (\<lambda>candidate. \<not> rejected U candidate) (map (candidate_of U) titles)"
  by (rule pick_name_from_titles_find)

theorem pick_name_from_titles_first_accepted_witness:
  "pick_name_from_titles sample_db
     [ustr ''Nu Pagamentos connector icon'', ustr ''Cx'', ustr ''Banco 24'',
      ustr ''Nubank - Wikipedia'', ustr ''Inter | Banco''] = Some (ustr ''Nubank'') \<and>
   rejected sample_db (ustr ''Nu Pagamentos connector icon'') \<and>
   rejected sample_db (ustr ''Cx'') \<and>
   rejected sample_db (ustr ''Banco 24'') \<and>
   \<not> rejected sample_db (ustr ''Nubank'')"
proof -
  have c: "map (candidate_of sample_db)
             [ustr ''Nu Pagamentos connector icon'', ustr ''Cx'', ustr ''Banco 24'',
              ustr ''Nubank - Wikipedia'', ustr ''Inter | Banco'']
           = [ustr ''Nu Pagamentos connector icon'', ustr ''Cx'', ustr ''Banco 24'',
              ustr ''Nubank'', ustr ''Inter'']"
    by (simp add: sample_eval)
  have r1: "rejected sample_db (ustr ''Nu Pagamentos connector icon'')"
    by (simp add: rejected_def contains_stop_word_def STOP_PHRASES_def sample_eval
        sublist_code prefix_code)
  have r2: "rejected sample_db (ustr ''Cx'')"
    by (simp add: rejected_def ustr_def)
  have r3: "rejected sample_db (ustr ''Banco 24'')"
    by (simp add: rejected_def sample_eval)
  have r4: "\<not> rejected sample_db (ustr ''Nubank'')"
    by (simp add: rejected_def contains_stop_word_def STOP_PHRASES_def sample_eval
        sublist_code prefix_code)
  show ?thesis
    unfolding pick_name_from_titles_first_accepted c
    by (simp add: r1 r2 r3 r4)
qed

section \<open>Properties of the fetcher\<close>

lemma digit_value_ascii: "d < 10 \<Longrightarrow> digit_value U (48 + d) = d"
  by (simp add: digit_value_def is_ascii_def)

lemma py_int_decimal_digits: "py_int U (decimal_digits n) = n"
proof (induction n rule: decimal_digits.induct)
  case (1 n)
  show ?case
  proof (cases "n < 10")
    case True
    then show ?thesis
      by (simp add: decimal_digits.simps [of n] py_int_def digit_value_ascii)
  next
    case False
    with 1 have "py_int U (decimal_digits (n div 10)) = n div 10" by simp
    moreover have "digit_value U (48 + n mod 10) = n mod 10"
      by (rule digit_value_ascii) simp
    ultimately show ?thesis
      using False by (simp add: decimal_digits.simps [of n] py_int_def)
  qed
qed

lemma decimal_digits_inj: "decimal_digits m = decimal_digits n \<Longrightarrow> m = n"
  by (metis py_int_decimal_digits)

lemma svg_name_inj: "svg_name m = svg_name n \<Longrightarrow> m = n"
  by (simp add: svg_name_def decimal_digits_inj)

lemma download_svg_failure:
  "(fst (download_svg cdn icon_id s) = Inr False) = (\<forall>content. cdn icon_id \<noteq> Response 200 content)"
  by (auto simp: download_svg_def Let_def split: http_result.splits)

lemma download_svg_failure_files:
  "fst (download_svg cdn icon_id s) \<noteq> Inr True \<Longrightarrow>
   files (snd (download_svg cdn icon_id s)) = files s \<and>
   dir_exists (snd (download_svg cdn icon_id s)) = dir_exists s"
  by (auto simp: download_svg_def Let_def emit_def split: http_result.splits if_splits)

text \<open>
  C10: \<^verbatim>\<open>download_svg\<close> returns failure exactly when the answer is not a response with
  status 200 (another status, an HTTP error or a network error), and then it leaves every
  file of the directory, and the directory, as they were.
\<close>

theorem download_svg_failure_leaves_files:
  "(fst (download_svg cdn icon_id s) = Inr False) = (\<forall>content. cdn icon_id \<noteq> Response 200 content) \<and>
   (fst (download_svg cdn icon_id s) = Inr False \<longrightarrow>
      files (snd (download_svg cdn icon_id s)) = files s \<and>
      dir_exists (snd (download_svg cdn icon_id s)) = dir_exists s)"
  by (auto simp: download_svg_def Let_def emit_def split: http_result.splits if_splits)

theorem download_svg_failure_leaves_files_witness:
  "fst (download_svg sample_cdn 203 initial_state) = Inr False \<and>
   files (snd (download_svg sample_cdn 203 initial_state)) = files initial_state \<and>
   dir_exists (snd (download_svg sample_cdn 203 initial_state)) = dir_exists initial_state"
  using download_svg_failure_leaves_files [of sample_cdn 203 initial_state]
  by (simp add: sample_cdn_def)

lemma download_svg_success:
  "cdn icon_id = Response 200 content \<Longrightarrow> dir_exists s \<Longrightarrow>
   download_svg cdn icon_id s =
     (Inr True, (emit (Requested icon_id) s)
        \<lparr>files := AList.update (svg_name icon_id) content (files s)\<rparr>)"
  by (simp add: download_svg_def Let_def emit_def)

lemma download_svg_fail_state:
  "\<forall>content. cdn icon_id \<noteq> Response 200 content \<Longrightarrow>
   \<exists>s1. download_svg cdn icon_id s = (Inr False, s1) \<and> files s1 = files s \<and>
        dir_exists s1 = dir_exists s \<and> requested (trace s1) = requested (trace s) @ [icon_id]"
  by (auto simp: download_svg_def Let_def emit_def requested_append split: http_result.splits)

lemma download_loop_stops:
  assumes "dir_exists s" and "j \<le> k"
    and "\<forall>i. j \<le> i \<and> i < k \<longrightarrow> (\<exists>content. cdn i = Response 200 content)"
    and "\<forall>content. cdn k \<noteq> Response 200 content"
  shows "\<exists>s'. download_loop cdn j s = Some (Inr (), s') \<and>
           requested (trace s') = requested (trace s) @ [j..<Suc k] \<and>
           (\<forall>i. j \<le> i \<and> i < k \<longrightarrow> (\<exists>content. cdn i = Response 200 content \<and>
                  map_of (files s') (svg_name i) = Some content)) \<and>
           (\<forall>n. (\<forall>i. j \<le> i \<and> i < k \<longrightarrow> n \<noteq> svg_name i) \<longrightarrow>
                  map_of (files s') n = map_of (files s) n)"
  using assms
proof (induction "k - j" arbitrary: j s)
  case 0
  then have jk: "j = k" by simp
  from "0.prems"(4) have "\<exists>s1. download_svg cdn k s = (Inr False, s1) \<and> files s1 = files s \<and>
        dir_exists s1 = dir_exists s \<and> requested (trace s1) = requested (trace s) @ [k]"
    by (rule download_svg_fail_state)
  then obtain s1 where
    s1: "download_svg cdn k s = (Inr False, s1)" "files s1 = files s"
        "requested (trace s1) = requested (trace s) @ [k]"
    by blast
  have "download_loop cdn k s = Some (Inr (), emit (Printed (Stopped_on k)) s1)"
    by (subst download_loop.simps) (simp add: s1)
  with s1 jk show ?case
    by (auto simp: emit_def requested_append)
next
  case (Suc d)
  then have lt: "j < k" by simp
  with Suc.prems obtain content where c: "cdn j = Response 200 content" by blast
  let ?s1 = "(emit (Requested j) s)\<lparr>files := AList.update (svg_name j) content (files s)\<rparr>"
  let ?s2 = "emit (Printed (Downloaded j)) ?s1"
  have dl: "download_svg cdn j s = (Inr True, ?s1)"
    using c Suc.prems(1) by (rule download_svg_success)
  have step: "download_loop cdn j s = download_loop cdn (Suc j) ?s2"
    by (subst download_loop.simps) (simp add: dl)
  have "\<exists>s'. download_loop cdn (Suc j) ?s2 = Some (Inr (), s') \<and>
           requested (trace s') = requested (trace ?s2) @ [Suc j..<Suc k] \<and>
           (\<forall>i. Suc j \<le> i \<and> i < k \<longrightarrow> (\<exists>content. cdn i = Response 200 content \<and>
                  map_of (files s') (svg_name i) = Some content)) \<and>
           (\<forall>n. (\<forall>i. Suc j \<le> i \<and> i < k \<longrightarrow> n \<noteq> svg_name i) \<longrightarrow>
                  map_of (files s') n = map_of (files ?s2) n)"
  proof (rule Suc.hyps(1))
    show "d = k - Suc j" using Suc.hyps(2) by simp
    show "dir_exists ?s2" using Suc.prems(1) by (simp add: emit_def)
    show "Suc j \<le> k" using lt by simp
    show "\<forall>i. Suc j \<le> i \<and> i < k \<longrightarrow> (\<exists>content. cdn i = Response 200 content)"
      using Suc.prems(3) by auto
    show "\<forall>content. cdn k \<noteq> Response 200 content" by (rule Suc.prems(4))
  qed
  then obtain s' where s':
    "download_loop cdn (Suc j) ?s2 = Some (Inr (), s')"
    "requested (trace s') = requested (trace ?s2) @ [Suc j..<Suc k]"
    "\<forall>i. Suc j \<le> i \<and> i < k \<longrightarrow> (\<exists>content. cdn i = Response 200 content \<and>
                  map_of (files s') (svg_name i) = Some content)"
    "\<forall>n. (\<forall>i. Suc j \<le> i \<and> i < k \<longrightarrow> n \<noteq> svg_name i) \<longrightarrow>
                  map_of (files s') n = map_of (files ?s2) n"
    by blast
  have req: "requested (trace s') = requested (trace s) @ [j..<Suc k]"
    using s'(2) lt by (simp add: emit_def requested_append upt_conv_Cons)
  have "\<forall>i. Suc j \<le> i \<and> i < k \<longrightarrow> svg_name j \<noteq> svg_name i"
    using svg_name_inj by fastforce
  then have "map_of (files s') (svg_name j) = map_of (files ?s2) (svg_name j)"
    using s'(4) by blast
  then have mj: "map_of (files s') (svg_name j) = Some content"
    by (simp add: emit_def update_conv')
  have written: "\<forall>i. j \<le> i \<and> i < k \<longrightarrow> (\<exists>content. cdn i = Response 200 content \<and>
                  map_of (files s') (svg_name i) = Some content)"
  proof (intro allI impI)
    fix i assume i: "j \<le> i \<and> i < k"
    show "\<exists>content. cdn i = Response 200 content \<and> map_of (files s') (svg_name i) = Some content"
    proof (cases "i = j")
      case True
      with c mj show ?thesis by simp
    next
      case False
      with i have "Suc j \<le> i \<and> i < k" by simp
      with s'(3) show ?thesis by blast
    qed
  qed
  have others: "\<forall>n. (\<forall>i. j \<le> i \<and> i < k \<longrightarrow> n \<noteq> svg_name i) \<longrightarrow>
                  map_of (files s') n = map_of (files s) n"
  proof (intro allI impI)
    fix n assume n: "\<forall>i. j \<le> i \<and> i < k \<longrightarrow> n \<noteq> svg_name i"
    then have "\<forall>i. Suc j \<le> i \<and> i < k \<longrightarrow> n \<noteq> svg_name i" by simp
    with s'(4) have "map_of (files s') n = map_of (files ?s2) n" by blast
    moreover from n lt have "n \<noteq> svg_name j" by auto
    ultimately show "map_of (files s') n = map_of (files s) n"
      by (simp add: emit_def update_conv')
  qed
  from step s'(1) req written others show ?case by simp
qed

text \<open>
  C7: when the fetches of the identifiers from 201 up to, and excluding, \<open>k\<close> succeed
  and the fetch of \<open>k\<close> fails, the fetcher driver returns, with exit code 0; it has
  requested exactly the identifiers 201, 202, ..., \<open>k\<close>, in this order and each
  once; the file of every identifier from 201 up to, and excluding, \<open>k\<close> holds the body
  received for it; every other file is as it was.
\<close>

theorem main_download_stops_at_first_failure:
  assumes "201 \<le> k"
    and "\<forall>i. 201 \<le> i \<and> i < k \<longrightarrow> (\<exists>content. cdn i = Response 200 content)"
    and "\<forall>content. cdn k \<noteq> Response 200 content"
  shows "\<exists>s'. main_download cdn s = Some (Inr 0, s') \<and>
           requested (trace s') = requested (trace s) @ [201..<Suc k] \<and>
           (\<forall>i. 201 \<le> i \<and> i < k \<longrightarrow> (\<exists>content. cdn i = Response 200 content \<and>
                  map_of (files s') (svg_name i) = Some content)) \<and>
           (\<forall>n. (\<forall>i. 201 \<le> i \<and> i < k \<longrightarrow> n \<noteq> svg_name i) \<longrightarrow>
                  map_of (files s') n = map_of (files s) n)"
proof -
  have "dir_exists (s\<lparr>dir_exists := True\<rparr>)" by simp
  from download_loop_stops [OF this assms(1) assms(2) assms(3)]
  obtain s' where s': "download_loop cdn 201 (s\<lparr>dir_exists := True\<rparr>) = Some (Inr (), s')"
    "requested (trace s') = requested (trace (s\<lparr>dir_exists := True\<rparr>)) @ [201..<Suc k]"
    "\<forall>i. 201 \<le> i \<and> i < k \<longrightarrow> (\<exists>content. cdn i = Response 200 content \<and>
                  map_of (files s') (svg_name i) = Some content)"
    "\<forall>n. (\<forall>i. 201 \<le> i \<and> i < k \<longrightarrow> n \<noteq> svg_name i) \<longrightarrow>
                  map_of (files s') n = map_of (files (s\<lparr>dir_exists := True\<rparr>)) n"
    by blast
  have "main_download cdn s = Some (Inr 0, s')"
    by (simp add: main_download_def s'(1))
  with s'(2,3,4) show ?thesis by simp
qed

theorem main_download_stops_at_first_failure_witness:
  "\<exists>s'. main_download sample_cdn initial_state = Some (Inr 0, s') \<and>
     requested (trace s') = [201, 202, 203] \<and>
     map_of (files s') (svg_name 201) = Some (ustr ''<svg/>'') \<and>
     map_of (files s') (svg_name 202) = Some (ustr ''<svg/>'') \<and>
     map_of (files s') (svg_name 203) = None"
proof -
  have 1: "(201::nat) \<le> 203" by simp
  have 2: "\<forall>i. 201 \<le> i \<and> i < 203 \<longrightarrow> (\<exists>content. sample_cdn i = Response 200 content)"
    by (simp add: sample_cdn_def)
  have 3: "\<forall>content. sample_cdn 203 \<noteq> Response 200 content"
    by (simp add: sample_cdn_def)
  from main_download_stops_at_first_failure [OF 1 2 3, of initial_state]
  obtain s' where s': "main_download sample_cdn initial_state = Some (Inr 0, s')"
    "requested (trace s') = requested (trace initial_state) @ [201..<Suc 203]"
    "\<forall>i. 201 \<le> i \<and> i < 203 \<longrightarrow> (\<exists>content. sample_cdn i = Response 200 content \<and>
            map_of (files s') (svg_name i) = Some content)"
    "\<forall>n. (\<forall>i. 201 \<le> i \<and> i < 203 \<longrightarrow> n \<noteq> svg_name i) \<longrightarrow>
            map_of (files s') n = map_of (files initial_state) n"
    by blast
  have r: "requested (trace s') = [201, 202, 203]"
    using s'(2) by (simp add: initial_state_def upt_rec)
  have "\<exists>content. sample_cdn 201 = Response 200 content \<and>
          map_of (files s') (svg_name 201) = Some content"
    using s'(3) by simp
  then have a: "map_of (files s') (svg_name 201) = Some (ustr ''<svg/>'')"
    by (auto simp: sample_cdn_def)
  have "\<exists>content. sample_cdn 202 = Response 200 content \<and>
          map_of (files s') (svg_name 202) = Some content"
    using s'(3) by simp
  then have b: "map_of (files s') (svg_name 202) = Some (ustr ''<svg/>'')"
    by (auto simp: sample_cdn_def)
  have "\<forall>i. 201 \<le> i \<and> i < 203 \<longrightarrow> svg_name 203 \<noteq> svg_name i"
    using svg_name_inj by fastforce
  with s'(4) have "map_of (files s') (svg_name 203) = map_of (files initial_state) (svg_name 203)"
    by blast
  then have c: "map_of (files s') (svg_name 203) = None"
    by (simp add: initial_state_def)
  from s'(1) r a b c show ?thesis by blast
qed

text \<open>
  The loop has no other exit: while every fetch succeeds the driver does not return.
\<close>

lemma download_loop_runs_forever_aux:
  assumes run: "download_loop cdn j s = Some y"
  shows "dir_exists s \<longrightarrow> (\<forall>i\<ge>j. \<exists>content. cdn i = Response 200 content) \<longrightarrow> False"
proof (rule download_loop.raw_induct
    [where P = "\<lambda>cdn j s y. dir_exists s \<longrightarrow> (\<forall>i\<ge>j. \<exists>content. cdn i = Response 200 content) \<longrightarrow> False",
     OF _ run], goal_cases)
  case (1 loop cdn j s y)
  note IH = 1(1) and eq = 1(2)
  show ?case
  proof (intro impI)
    assume d: "dir_exists s" and a: "\<forall>i\<ge>j. \<exists>content. cdn i = Response 200 content"
    then obtain content where c: "cdn j = Response 200 content" by blast
    let ?s2 = "emit (Printed (Downloaded j))
                 ((emit (Requested j) s)\<lparr>files := AList.update (svg_name j) content (files s)\<rparr>)"
    have dl: "download_svg cdn j s =
        (Inr True, (emit (Requested j) s)\<lparr>files := AList.update (svg_name j) content (files s)\<rparr>)"
      using c d by (rule download_svg_success)
    from eq have "loop cdn (j + 1) ?s2 = Some y"
      by (simp add: dl)
    then have "dir_exists ?s2 \<longrightarrow> (\<forall>i\<ge>j + 1. \<exists>content. cdn i = Response 200 content) \<longrightarrow> False"
      by (rule IH)
    with d a show False by (simp add: emit_def)
  qed
qed

lemma main_download_runs_forever:
  assumes "\<forall>i\<ge>201. \<exists>content. cdn i = Response 200 content"
  shows "main_download cdn s = None"
proof (cases "download_loop cdn 201 (s\<lparr>dir_exists := True\<rparr>)")
  case None
  then show ?thesis by (simp add: main_download_def)
next
  case (Some y)
  from download_loop_runs_forever_aux [OF Some] assms show ?thesis by simp
qed

section \<open>Properties of the institution identifier\<close>

lemma build_queries_cases:
  "build_queries icon_id hints =
     (if hints = [] then [ustr ''pluggy connector '' @ icon_id @ ustr '' svg bank'']
      else [ustr ''pluggy connector '' @ icon_id @ ustr '' svg bank'', hd hints @ ustr '' logo''])"
  by (simp add: build_queries_def)

lemma slug_of_titles_Some:
  "slug_of_titles U titles = Some slug \<Longrightarrow>
   slug \<noteq> [] \<and> (\<exists>candidate. pick_name_from_titles U titles = Some candidate \<and>
                  slug = normalize_name U candidate)"
  by (auto simp: slug_of_titles_def Let_def split: option.splits if_splits)

lemma identify_institution_spec:
  "identify_institution E icon_id hints s = identify_spec E icon_id hints s"
  by (cases "fetch_search_results E (world s) (ustr ''pluggy connector '' @ icon_id @ ustr '' svg bank'')";
      cases "fetch_search_results E
               (snd (fetch_search_results E (world s) (ustr ''pluggy connector '' @ icon_id @ ustr '' svg bank'')))
               (hd hints @ ustr '' logo'')")
     (auto simp: identify_institution_def identify_spec_def build_queries_def Let_def emit_def
           split: sum.splits option.splits prod.splits)

lemma try_queries_frame:
  "\<exists>evs. trace (snd (try_queries E qs s)) = trace s @ evs \<and> printed evs = [] \<and>
         files (snd (try_queries E qs s)) = files s \<and>
         dir_exists (snd (try_queries E qs s)) = dir_exists s"
proof (induction qs arbitrary: s)
  case Nil
  show ?case by simp
next
  case (Cons q qs)
  obtain r w where f: "fetch_search_results E (world s) q = (r, w)"
    by (cases "fetch_search_results E (world s) q")
  show ?case
  proof (cases r)
    case (Inl e)
    with f show ?thesis by (simp add: emit_def)
  next
    case (Inr titles)
    show ?thesis
    proof (cases "slug_of_titles (udb E) titles")
      case (Some slug)
      with f Inr show ?thesis by (simp add: emit_def)
    next
      case None
      let ?s2 = "emit Slept (emit (Queried q) (s\<lparr>world := w\<rparr>))"
      from Cons [of ?s2] obtain evs where
        "trace (snd (try_queries E qs ?s2)) = trace ?s2 @ evs" "printed evs = []"
        "files (snd (try_queries E qs ?s2)) = files ?s2"
        "dir_exists (snd (try_queries E qs ?s2)) = dir_exists ?s2"
        by blast
      then have "trace (snd (try_queries E qs ?s2)) = trace s @ ([Queried q, Slept] @ evs) \<and>
          printed ([Queried q, Slept] @ evs) = [] \<and>
          files (snd (try_queries E qs ?s2)) = files s \<and>
          dir_exists (snd (try_queries E qs ?s2)) = dir_exists s"
        by (simp add: emit_def)
      with f Inr None show ?thesis
        by (simp del: append.simps)
    qed
  qed
qed

lemma try_queries_None_queried:
  "fst (try_queries E qs s) = Inr None \<Longrightarrow>
   queried (trace (snd (try_queries E qs s))) = queried (trace s) @ qs"
proof (induction qs arbitrary: s)
  case Nil
  show ?case by simp
next
  case (Cons q qs)
  obtain r w where f: "fetch_search_results E (world s) q = (r, w)"
    by (cases "fetch_search_results E (world s) q")
  show ?case
  proof (cases r)
    case (Inl e)
    with f Cons.prems show ?thesis by simp
  next
    case (Inr titles)
    show ?thesis
    proof (cases "slug_of_titles (udb E) titles")
      case (Some slug)
      with f Inr Cons.prems show ?thesis by simp
    next
      case None
      let ?s2 = "emit Slept (emit (Queried q) (s\<lparr>world := w\<rparr>))"
      from f Inr None Cons.prems have "fst (try_queries E qs ?s2) = Inr None" by simp
      then have "queried (trace (snd (try_queries E qs ?s2))) = queried (trace ?s2) @ qs"
        by (rule Cons.IH)
      with f Inr None show ?thesis
        by (simp add: emit_def queried_append)
    qed
  qed
qed

lemma try_queries_Some_nonempty:
  "fst (try_queries E qs s) = Inr (Some slug) \<Longrightarrow> slug \<noteq> []"
proof (induction qs arbitrary: s)
  case Nil
  then show ?case by simp
next
  case (Cons q qs)
  obtain r w where f: "fetch_search_results E (world s) q = (r, w)"
    by (cases "fetch_search_results E (world s) q")
  show ?case
  proof (cases r)
    case (Inl e)
    with f Cons.prems show ?thesis by simp
  next
    case (Inr titles)
    show ?thesis
    proof (cases "slug_of_titles (udb E) titles")
      case (Some slug')
      with f Inr Cons.prems have "slug' = slug" by simp
      with Some show ?thesis using slug_of_titles_Some by blast
    next
      case None
      with f Inr Cons.prems Cons.IH show ?thesis by simp
    qed
  qed
qed

lemma sample_titles_slug:
  "slug_of_titles sample_db [ustr ''Nubank - Wikipedia'', ustr ''Nu Pagamentos connector icon'']
     = Some (ustr ''nubank'')"
proof -
  have c: "candidate_of sample_db (ustr ''Nubank - Wikipedia'') = ustr ''Nubank''"
    by (simp add: sample_eval)
  have r: "\<not> rejected sample_db (ustr ''Nubank'')"
    by (simp add: rejected_def contains_stop_word_def STOP_PHRASES_def sample_eval
        sublist_code prefix_code)
  have p: "pick_name_from_titles sample_db
             [ustr ''Nubank - Wikipedia'', ustr ''Nu Pagamentos connector icon'']
           = Some (ustr ''Nubank'')"
    unfolding pick_name_from_titles_find by (simp add: c r)
  have n: "normalize_name sample_db (ustr ''Nubank'') = ustr ''nubank''"
    by code_simp
  have e: "ustr ''Nubank'' \<noteq> []" "ustr ''nubank'' \<noteq> []"
    by (simp_all add: ustr_def)
  show ?thesis
    unfolding slug_of_titles_def p by (simp add: n e)
qed

lemma world_unit: "(s :: (unit, 'c) state)\<lparr>world := ()\<rparr> = s"
  by (cases s) simp

lemma sample_query:
  "ustr ''pluggy connector '' @ ustr ''201'' @ ustr '' svg bank'' = ustr ''pluggy connector 201 svg bank''"
  by (simp add: ustr_def)

lemma sample_fetch:
  "fetch_search_results sample_env w (ustr ''pluggy connector 201 svg bank'') =
     (Inr [ustr ''Nubank - Wikipedia'', ustr ''Nu Pagamentos connector icon''], w)"
  by (simp add: sample_env_def)

lemma sample_udb: "udb sample_env = sample_db"
  by (simp add: sample_env_def)

lemma sample_identify_spec:
  "identify_spec sample_env (ustr ''201'') hints s =
     (Inr (Some (ustr ''nubank'')), emit (Queried (ustr ''pluggy connector 201 svg bank'')) s)"
  by (simp add: identify_spec_def Let_def sample_query sample_fetch sample_udb sample_titles_slug
      world_unit)

lemma sample_identify:
  "identify_institution sample_env (ustr ''201'') hints s =
     (Inr (Some (ustr ''nubank'')), emit (Queried (ustr ''pluggy connector 201 svg bank'')) s)"
  by (simp add: identify_institution_spec sample_identify_spec)

text \<open>
  C6: the queries are, in this order, \<^verbatim>\<open>pluggy connector {identifier} svg bank\<close> and,
  only when there is a hint, \<^verbatim>\<open>{first hint} logo\<close>; the identifier sends them in this
  order and returns the first slug it gets, which is not empty, without sending the
  query after it; it returns nothing only when every query has been sent.
\<close>

theorem identify_institution_in_order:
  "build_queries icon_id hints =
     (if hints = [] then [ustr ''pluggy connector '' @ icon_id @ ustr '' svg bank'']
      else [ustr ''pluggy connector '' @ icon_id @ ustr '' svg bank'', hd hints @ ustr '' logo'']) \<and>
   identify_institution E icon_id hints s = identify_spec E icon_id hints s \<and>
   (fst (identify_institution E icon_id hints s) = Inr None \<longrightarrow>
      queried (trace (snd (identify_institution E icon_id hints s))) =
        queried (trace s) @ build_queries icon_id hints) \<and>
   (\<forall>slug. fst (identify_institution E icon_id hints s) = Inr (Some slug) \<longrightarrow> slug \<noteq> [])"
  using build_queries_cases [of icon_id hints] identify_institution_spec [of E icon_id hints s]
    try_queries_None_queried [of E "build_queries icon_id hints" s]
    try_queries_Some_nonempty [of E "build_queries icon_id hints" s]
  unfolding identify_institution_def by blast

theorem identify_institution_in_order_witness:
  "identify_institution sample_env (ustr ''201'') [ustr ''Ita'' @ [250] @ ustr '' Unibanco''] two_files =
     (Inr (Some (ustr ''nubank'')), emit (Queried (ustr ''pluggy connector 201 svg bank'')) two_files) \<and>
   ustr ''nubank'' \<noteq> []"
  using identify_institution_in_order [of "ustr ''201''"
        "[ustr ''Ita'' @ [250] @ ustr '' Unibanco'']" sample_env two_files]
  by (simp add: sample_identify_spec)

section \<open>Properties of the renaming driver\<close>

lemma identify_institution_frame:
  assumes "identify_institution E icon_id hints s = (r, s1)"
  shows "\<exists>evs. trace s1 = trace s @ evs \<and> printed evs = [] \<and> files s1 = files s \<and>
           dir_exists s1 = dir_exists s"
  using try_queries_frame [of E "build_queries icon_id hints" s] assms
  by (simp add: identify_institution_def)

lemma identify_institution_nonempty:
  "identify_institution E icon_id hints s = (Inr (Some slug), s1) \<Longrightarrow> slug \<noteq> []"
  using try_queries_Some_nonempty [of E "build_queries icon_id hints" s slug]
  by (simp add: identify_institution_def)

lemma process_file_target_exists_aux:
  assumes "map_of (files s) filename = Some content"
    and "identify_institution E (split_dot_head filename) (extract_hints E (read_text E content)) s
           = (Inr (Some slug), s1)"
    and "split_dot_head filename @ ustr ''_'' @ slug @ ustr ''.svg'' \<in> fst ` set (files s)"
  shows "process_file E filename s =
           (Inr (), emit (Printed (Skipped_target_exists filename
                      (split_dot_head filename @ ustr ''_'' @ slug @ ustr ''.svg''))) s1) \<and>
         files s1 = files s \<and> dir_exists s1 = dir_exists s \<and>
         printed (trace s1) = printed (trace s)"
proof -
  from identify_institution_frame [OF assms(2)] obtain evs where
    fr: "trace s1 = trace s @ evs" "printed evs = []" "files s1 = files s"
        "dir_exists s1 = dir_exists s"
    by blast
  have ne: "slug \<noteq> []" using assms(2) by (rule identify_institution_nonempty)
  have "process_file E filename s =
           (Inr (), emit (Printed (Skipped_target_exists filename
                      (split_dot_head filename @ ustr ''_'' @ slug @ ustr ''.svg''))) s1)"
    using assms ne fr(3) by (simp add: process_file_def Let_def)
  with fr show ?thesis by (simp add: printed_append)
qed

lemma sample_hints:
  "extract_hints sample_env (read_text sample_env (ustr ''<svg><title>Nubank</title></svg>''))
     = [ustr ''Nubank'']"
proof -
  have 1: "read_text sample_env (ustr ''<svg><title>Nubank</title></svg>'')
             = ustr ''<svg><title>Nubank</title></svg>''"
    by (simp add: sample_env_def)
  have 2: "re_findall sample_env (ustr ''<title>(.*?)</title>'') (ustr ''<svg><title>Nubank</title></svg>'')
             = [ustr ''Nubank'']"
    by (simp add: sample_env_def)
  have 3: "re_findall sample_env (ustr ''<desc>(.*?)</desc>'') (ustr ''<svg><title>Nubank</title></svg>'')
             = []"
    by (simp add: sample_env_def ustr_def)
  have 4: "strip_chars (is_space sample_db) (re_sub_runs (is_space sample_db) (ustr '' '') (ustr ''Nubank''))
             = ustr ''Nubank''"
    by (simp add: sample_eval)
  have 5: "ustr ''Nubank'' \<noteq> []" by (simp add: ustr_def)
  show ?thesis
    unfolding extract_hints_def 1 by (simp add: 2 3 4 5 sample_udb)
qed

lemma sample_split_dot_head: "split_dot_head (ustr ''201.svg'') = ustr ''201''"
  by (simp add: split_dot_head_def ustr_def)

lemma sample_new_name: "ustr ''201'' @ ustr ''_'' @ ustr ''nubank'' @ ustr ''.svg'' = ustr ''201_nubank.svg''"
  by (simp add: ustr_def)

text \<open>
  C9: when \<^verbatim>\<open>{identifier}_{slug}.svg\<close> exists at the time the driver processes
  \<^verbatim>\<open>{identifier}.svg\<close> and the identifier has returned \<open>slug\<close>, every file of the
  directory stays as it is, under its name and with its content, no exception is raised,
  and the one line printed is the skip.
\<close>

theorem process_file_target_exists:
  assumes "map_of (files s) filename = Some content"
    and "identify_institution E (split_dot_head filename) (extract_hints E (read_text E content)) s
           = (Inr (Some slug), s1)"
    and "split_dot_head filename @ ustr ''_'' @ slug @ ustr ''.svg'' \<in> fst ` set (files s)"
  shows "fst (process_file E filename s) = Inr () \<and>
         files (snd (process_file E filename s)) = files s \<and>
         dir_exists (snd (process_file E filename s)) = dir_exists s \<and>
         printed (trace (snd (process_file E filename s))) =
           printed (trace s) @
             [Skipped_target_exists filename
                (split_dot_head filename @ ustr ''_'' @ slug @ ustr ''.svg'')]"
  using process_file_target_exists_aux [OF assms]
  by (simp add: emit_def printed_append)

theorem process_file_target_exists_witness:
  "fst (process_file sample_env (ustr ''201.svg'') collision) = Inr () \<and>
   files (snd (process_file sample_env (ustr ''201.svg'') collision)) = files collision \<and>
   printed (trace (snd (process_file sample_env (ustr ''201.svg'') collision))) =
     [Skipped_target_exists (ustr ''201.svg'') (ustr ''201_nubank.svg'')]"
proof -
  have 1: "map_of (files collision) (ustr ''201.svg'') = Some (ustr ''<svg><title>Nubank</title></svg>'')"
    by (simp add: collision_def ustr_def)
  have 2: "identify_institution sample_env (split_dot_head (ustr ''201.svg''))
             (extract_hints sample_env (read_text sample_env (ustr ''<svg><title>Nubank</title></svg>'')))
             collision
           = (Inr (Some (ustr ''nubank'')),
              emit (Queried (ustr ''pluggy connector 201 svg bank'')) collision)"
    by (simp only: sample_split_dot_head sample_identify)
  have 3: "split_dot_head (ustr ''201.svg'') @ ustr ''_'' @ ustr ''nubank'' @ ustr ''.svg''
             \<in> fst ` set (files collision)"
    unfolding sample_split_dot_head sample_new_name by (simp add: collision_def)
  have 4: "printed (trace collision) = []" by (simp add: collision_def)
  from process_file_target_exists [OF 1 2 3] show ?thesis
    unfolding sample_split_dot_head sample_new_name by (simp add: 4)
qed

lemma process_file_trace:
  "\<exists>evs. trace (snd (process_file E f s)) = trace s @ evs \<and>
     (case fst (process_file E f s) of
        Inr u \<Rightarrow> map message_file (printed evs) = [f]
      | Inl e \<Rightarrow> printed evs = [])"
proof (cases "map_of (files s) f")
  case None
  then show ?thesis by (simp add: process_file_def)
next
  case (Some content)
  obtain r s1 where
    id: "identify_institution E (split_dot_head f) (extract_hints E (read_text E content)) s = (r, s1)"
    by (cases "identify_institution E (split_dot_head f) (extract_hints E (read_text E content)) s")
  from identify_institution_frame [OF id] obtain evs where
    fr: "trace s1 = trace s @ evs" "printed evs = []"
    by blast
  show ?thesis
  proof (cases r)
    case (Inl e)
    with Some id fr show ?thesis by (simp add: process_file_def)
  next
    case (Inr inst)
    show ?thesis
    proof (cases "fst (process_file E f s)")
      case (Inl e)
      with Some id Inr show ?thesis
        by (simp add: process_file_def Let_def split: option.splits if_splits)
    next
      case Inr': (Inr u)
      have "trace (snd (process_file E f s)) = trace s @ (evs @ [Printed (Skipped_no_match f)]) \<or>
            (\<exists>n. trace (snd (process_file E f s)) = trace s @ (evs @ [Printed (Skipped_target_exists f n)])) \<or>
            (\<exists>n. trace (snd (process_file E f s)) = trace s @ (evs @ [Printed (Renamed f n), Slept]))"
        using Some id Inr fr
        by (simp add: process_file_def Let_def emit_def rename_file_def split: option.splits)
      then obtain evs' where "trace (snd (process_file E f s)) = trace s @ evs'"
        "map message_file (printed evs') = [f]"
        using fr(2) by (auto simp: printed_append)
      with Inr' show ?thesis by auto
    qed
  qed
qed

lemma rename_loop_trace:
  "\<exists>evs. trace (snd (rename_loop E fs s)) = trace s @ evs \<and>
     (case fst (rename_loop E fs s) of
        Inr u \<Rightarrow> map message_file (printed evs) = fs
      | Inl e \<Rightarrow> strict_prefix (map message_file (printed evs)) fs)"
proof (induction fs arbitrary: s)
  case Nil
  show ?case by simp
next
  case (Cons f fs)
  obtain r s1 where p: "process_file E f s = (r, s1)"
    by (cases "process_file E f s")
  from process_file_trace [of E f s] p obtain evs where
    e1: "trace s1 = trace s @ evs"
        "case r of Inr u \<Rightarrow> map message_file (printed evs) = [f] | Inl e \<Rightarrow> printed evs = []"
    by auto
  show ?case
  proof (cases r)
    case (Inl e)
    with p e1 show ?thesis by simp
  next
    case (Inr u)
    from Cons [of s1] obtain evs2 where
      e2: "trace (snd (rename_loop E fs s1)) = trace s1 @ evs2"
          "case fst (rename_loop E fs s1) of
             Inr u \<Rightarrow> map message_file (printed evs2) = fs
           | Inl e \<Rightarrow> strict_prefix (map message_file (printed evs2)) fs"
      by blast
    have l: "rename_loop E (f # fs) s = rename_loop E fs s1"
      using p Inr by simp
    have t: "trace (snd (rename_loop E (f # fs) s)) = trace s @ (evs @ evs2)"
      using l e1(1) e2(1) by simp
    have m: "map message_file (printed (evs @ evs2)) = f # map message_file (printed evs2)"
      using e1(2) Inr by (simp add: printed_append)
    have "case fst (rename_loop E (f # fs) s) of
             Inr u \<Rightarrow> map message_file (printed (evs @ evs2)) = f # fs
           | Inl e \<Rightarrow> strict_prefix (map message_file (printed (evs @ evs2))) (f # fs)"
      using e2(2) unfolding l m by (simp split: sum.splits)
    with t show ?thesis by blast
  qed
qed

lemma process_file_raises:
  "(fst (process_file E f s) = Inl e) =
     ((map_of (files s) f = None \<and> e = File_not_found) \<or>
      (\<exists>content. map_of (files s) f = Some content \<and>
         fst (identify_institution E (split_dot_head f) (extract_hints E (read_text E content)) s) = Inl e))"
  by (auto simp: process_file_def Let_def split: option.splits sum.splits prod.splits if_splits)

lemma failing_identify:
  "identify_institution failing_env icon_id hints s =
     (Inl Transport_error, emit (Queried (ustr ''pluggy connector '' @ icon_id @ ustr '' svg bank'')) s)"
  by (simp add: identify_institution_spec identify_spec_def Let_def failing_env_def world_unit)

lemma failing_process_file:
  "process_file failing_env (ustr ''201.svg'') two_files =
     (Inl Transport_error, emit (Queried (ustr ''pluggy connector 201 svg bank'')) two_files)"
proof -
  have 1: "map_of (files two_files) (ustr ''201.svg'') = Some (ustr ''<svg><title>Nubank</title></svg>'')"
    by (simp add: two_files_def ustr_def)
  show ?thesis
    unfolding process_file_def Let_def 1 sample_split_dot_head
    by (simp add: failing_identify sample_query)
qed

lemma sample_scan:
  "scan_match sample_db (ustr ''201.svg'')" "scan_match sample_db (ustr ''202.svg'')"
  "\<not> scan_match sample_db (ustr ''201_nubank.svg'')"
  by (simp_all add: scan_match_def ustr_def is_decimal_def is_ascii_def)

lemma sample_keys:
  "py_int sample_db (split_dot_head (ustr ''201.svg'')) = 201"
  "py_int sample_db (split_dot_head (ustr ''202.svg'')) = 202"
  by (simp_all add: py_int_def split_dot_head_def ustr_def digit_value_def is_ascii_def)

lemma failing_main:
  "main_rename failing_env two_files =
     (Inl Transport_error, emit (Queried (ustr ''pluggy connector 201 svg bank'')) two_files)"
proof -
  have d: "dir_exists two_files" by (simp add: two_files_def)
  have u: "udb failing_env = sample_db" by (simp add: failing_env_def sample_env_def)
  have f: "filter (scan_match sample_db) (map fst (files two_files)) = [ustr ''201.svg'', ustr ''202.svg'']"
    by (simp add: two_files_def sample_scan)
  have s: "sort_key (\<lambda>name. py_int sample_db (split_dot_head name)) [ustr ''201.svg'', ustr ''202.svg'']
             = [ustr ''201.svg'', ustr ''202.svg'']"
    by (simp add: sample_keys)
  show ?thesis
    unfolding main_rename_def Let_def u f s
    by (simp add: d failing_process_file)
qed

text \<open>
  C1, as amended: a file that is skipped (no confident match, or the target exists) or
  renamed does not end the batch: processing continues with the next file, and a batch
  that raises no exception reports every file once, in order. An exception raised while
  a file is processed is not caught: the batch ends at that file, with the state the file
  left, and the files after it are not processed. The body of the loop raises exactly
  when the file cannot be opened or the search raises while the asset is identified.
\<close>

theorem rename_loop_stops_only_on_exception:
  "(\<exists>evs. trace (snd (rename_loop E fs s)) = trace s @ evs \<and>
      (case fst (rename_loop E fs s) of
         Inr u \<Rightarrow> map message_file (printed evs) = fs
       | Inl e \<Rightarrow> strict_prefix (map message_file (printed evs)) fs)) \<and>
   (fst (process_file E f s) = Inr () \<longrightarrow>
      rename_loop E (f # rest) s = rename_loop E rest (snd (process_file E f s))) \<and>
   (\<forall>e. fst (process_file E f s) = Inl e \<longrightarrow>
      rename_loop E (f # rest) s = (Inl e, snd (process_file E f s))) \<and>
   (\<forall>e. (fst (process_file E f s) = Inl e) =
      ((map_of (files s) f = None \<and> e = File_not_found) \<or>
       (\<exists>content. map_of (files s) f = Some content \<and>
          fst (identify_institution E (split_dot_head f) (extract_hints E (read_text E content)) s)
            = Inl e)))"
proof (intro conjI allI impI)
  show "\<exists>evs. trace (snd (rename_loop E fs s)) = trace s @ evs \<and>
      (case fst (rename_loop E fs s) of
         Inr u \<Rightarrow> map message_file (printed evs) = fs
       | Inl e \<Rightarrow> strict_prefix (map message_file (printed evs)) fs)"
    by (rule rename_loop_trace)
next
  assume "fst (process_file E f s) = Inr ()"
  then show "rename_loop E (f # rest) s = rename_loop E rest (snd (process_file E f s))"
    by (cases "process_file E f s") simp
next
  fix e assume "fst (process_file E f s) = Inl e"
  then show "rename_loop E (f # rest) s = (Inl e, snd (process_file E f s))"
    by (cases "process_file E f s") simp
next
  fix e
  show "(fst (process_file E f s) = Inl e) =
      ((map_of (files s) f = None \<and> e = File_not_found) \<or>
       (\<exists>content. map_of (files s) f = Some content \<and>
          fst (identify_institution E (split_dot_head f) (extract_hints E (read_text E content)) s)
            = Inl e))"
    by (rule process_file_raises)
qed

theorem rename_loop_stops_only_on_exception_witness:
  "rename_loop failing_env [ustr ''201.svg'', ustr ''202.svg''] two_files =
     (Inl Transport_error, emit (Queried (ustr ''pluggy connector 201 svg bank'')) two_files)"
  using rename_loop_stops_only_on_exception [of failing_env "[]" two_files "ustr ''201.svg''"
      "[ustr ''202.svg'']"]
  by (simp add: failing_process_file)

text \<open>
  C1 as stated fails: with a search service that is down, the failure for
  \<^verbatim>\<open>201.svg\<close> ends the run; no query is sent and no line is printed for
  \<^verbatim>\<open>202.svg\<close>.
\<close>

theorem rename_loop_aborts_counterexample:
  "fst (process_file failing_env (ustr ''201.svg'') two_files) = Inl Transport_error \<and>
   fst (main_rename failing_env two_files) = Inl Transport_error \<and>
   queried (trace (snd (main_rename failing_env two_files))) = [ustr ''pluggy connector 201 svg bank''] \<and>
   printed (trace (snd (main_rename failing_env two_files))) = [] \<and>
   files (snd (main_rename failing_env two_files)) = files two_files"
  unfolding failing_main failing_process_file
  by (simp add: emit_def two_files_def)

lemma not_decimal_ascii: "c < 48 \<or> (57 < c \<and> c < 128) \<Longrightarrow> \<not> is_decimal U c"
  by (auto simp: is_decimal_def is_ascii_def)

lemma post_name_not_scanned:
  assumes "list_all (is_decimal U) icon_id"
  shows "\<not> scan_match U (icon_id @ ustr ''_'' @ slug @ ustr ''.svg'')"
proof -
  have u: "ustr ''_'' = [95]" by (simp add: ustr_def)
  have n: "\<not> is_decimal U 95" by (rule not_decimal_ascii) simp
  have "dropWhile (is_decimal U) (icon_id @ 95 # slug @ ustr ''.svg'') = 95 # slug @ ustr ''.svg''"
    using assms n by (simp add: dropWhile_append list_all_iff)
  then show ?thesis
    by (simp add: scan_match_def u ustr_def)
qed

lemma scan_match_split_dot_head:
  assumes "scan_match U f"
  shows "list_all (is_decimal U) (split_dot_head f)"
proof -
  let ?ds = "takeWhile (is_decimal U) f"
  let ?rest = "dropWhile (is_decimal U) f"
  have f: "f = ?ds @ ?rest" by simp
  have dot: "\<not> is_decimal U 46" by (rule not_decimal_ascii) simp
  have nd: "\<forall>c\<in>set ?ds. c \<noteq> 46"
    using dot by (metis set_takeWhileD)
  from assms have "?rest = ustr ''.svg'' \<or> ?rest = ustr ''.svg'' @ [10]"
    by (simp add: scan_match_def)
  then obtain r where r: "?rest = 46 # r"
    by (auto simp: ustr_def)
  have "takeWhile (\<lambda>c. c \<noteq> 46) (?ds @ 46 # r) = ?ds"
    using nd by (simp add: takeWhile_append2 del: takeWhile_dropWhile_id)
  then have "split_dot_head f = ?ds"
    unfolding split_dot_head_def using f r by (metis (full_types))
  then show ?thesis
    by (simp add: list_all_iff) (metis set_takeWhileD)
qed

lemma same_or_renamed_refl: "same_or_renamed U x x"
  by (simp add: same_or_renamed_def)

lemma same_or_renamed_trans:
  "same_or_renamed U x y \<Longrightarrow> same_or_renamed U y z \<Longrightarrow> same_or_renamed U x z"
  by (auto simp: same_or_renamed_def)

lemma rename_same_or_renamed:
  assumes "scan_match U f"
  shows "list_all2 (same_or_renamed U) fs
           (map (\<lambda>(n, c). if n = f then (split_dot_head f @ ustr ''_'' @ slug @ ustr ''.svg'', c)
                           else (n, c)) fs)"
proof -
  have "\<not> scan_match U (split_dot_head f @ ustr ''_'' @ slug @ ustr ''.svg'')"
    using assms by (intro post_name_not_scanned scan_match_split_dot_head)
  moreover have "prefix (split_dot_head f @ ustr ''_'') (split_dot_head f @ ustr ''_'' @ slug @ ustr ''.svg'')"
    by simp
  moreover have "suffix (ustr ''.svg'') (split_dot_head f @ ustr ''_'' @ slug @ ustr ''.svg'')"
    by (simp add: suffix_def)
  ultimately have new: "same_or_renamed U (f, c)
      (split_dot_head f @ ustr ''_'' @ slug @ ustr ''.svg'', c)" for c
    using assms by (simp add: same_or_renamed_def)
  have "\<forall>x\<in>set fs. same_or_renamed U x
      ((\<lambda>(n, c). if n = f then (split_dot_head f @ ustr ''_'' @ slug @ ustr ''.svg'', c) else (n, c)) x)"
  proof
    fix x assume "x \<in> set fs"
    obtain n c where x: "x = (n, c)" by (cases x)
    show "same_or_renamed U x
      ((\<lambda>(n, c). if n = f then (split_dot_head f @ ustr ''_'' @ slug @ ustr ''.svg'', c) else (n, c)) x)"
      unfolding x using new [of c] by (simp add: same_or_renamed_refl)
  qed
  then show ?thesis
    by (simp add: list_all2_map2 list_all2_same)
qed

lemma rename_distinct:
  assumes "distinct (map fst fs)" and "new \<notin> fst ` set fs"
  shows "distinct (map fst (map (\<lambda>(n, c). if n = f then (new, c) else (n, c)) fs))"
proof -
  have "map fst (map (\<lambda>(n, c). if n = f then (new, c) else (n, c)) fs)
          = map (\<lambda>n. if n = f then new else n) (map fst fs)"
    by (induction fs) auto
  moreover have "inj_on (\<lambda>n. if n = f then new else n) (set (map fst fs))"
    using assms(2) by (auto simp: inj_on_def)
  ultimately show ?thesis
    using assms(1) by (simp add: distinct_map del: map_map)
qed

lemma process_file_files:
  "files (snd (process_file E f s)) = files s \<or>
   (\<exists>slug. split_dot_head f @ ustr ''_'' @ slug @ ustr ''.svg'' \<notin> fst ` set (files s) \<and>
      files (snd (process_file E f s)) =
        map (\<lambda>(n, c). if n = f then (split_dot_head f @ ustr ''_'' @ slug @ ustr ''.svg'', c)
                        else (n, c)) (files s))"
proof (cases "map_of (files s) f")
  case None
  then show ?thesis by (simp add: process_file_def)
next
  case (Some content)
  obtain r s1 where
    id: "identify_institution E (split_dot_head f) (extract_hints E (read_text E content)) s = (r, s1)"
    by (cases "identify_institution E (split_dot_head f) (extract_hints E (read_text E content)) s")
  from identify_institution_frame [OF id] have fr: "files s1 = files s"
    by blast
  show ?thesis
    using Some id fr
    by (auto simp: process_file_def Let_def emit_def rename_file_def
             split: sum.splits option.splits)
qed

lemma process_file_dir:
  "dir_exists (snd (process_file E f s)) = dir_exists s"
proof (cases "map_of (files s) f")
  case None
  then show ?thesis by (simp add: process_file_def)
next
  case (Some content)
  obtain r s1 where
    id: "identify_institution E (split_dot_head f) (extract_hints E (read_text E content)) s = (r, s1)"
    by (cases "identify_institution E (split_dot_head f) (extract_hints E (read_text E content)) s")
  from identify_institution_frame [OF id] have fr: "dir_exists s1 = dir_exists s"
    by blast
  show ?thesis
    using Some id fr
    by (auto simp: process_file_def Let_def emit_def rename_file_def
             split: sum.splits option.splits)
qed

lemma process_file_same_or_renamed:
  assumes "scan_match (udb E) f"
  shows "list_all2 (same_or_renamed (udb E)) (files s) (files (snd (process_file E f s))) \<and>
         (distinct (map fst (files s)) \<longrightarrow> distinct (map fst (files (snd (process_file E f s)))))"
  using process_file_files [of E f s]
proof
  assume "files (snd (process_file E f s)) = files s"
  then show ?thesis
    by (simp add: list_all2_same same_or_renamed_refl)
next
  assume "\<exists>slug. split_dot_head f @ ustr ''_'' @ slug @ ustr ''.svg'' \<notin> fst ` set (files s) \<and>
      files (snd (process_file E f s)) =
        map (\<lambda>(n, c). if n = f then (split_dot_head f @ ustr ''_'' @ slug @ ustr ''.svg'', c)
                        else (n, c)) (files s)"
  then obtain slug where
    new: "split_dot_head f @ ustr ''_'' @ slug @ ustr ''.svg'' \<notin> fst ` set (files s)"
    and eq: "files (snd (process_file E f s)) =
        map (\<lambda>(n, c). if n = f then (split_dot_head f @ ustr ''_'' @ slug @ ustr ''.svg'', c)
                        else (n, c)) (files s)"
    by blast
  show ?thesis
    unfolding eq using rename_same_or_renamed [OF assms] rename_distinct [OF _ new]
    by blast
qed

lemma rename_loop_same_or_renamed:
  assumes "list_all (scan_match (udb E)) fs"
  shows "list_all2 (same_or_renamed (udb E)) (files s) (files (snd (rename_loop E fs s))) \<and>
         (distinct (map fst (files s)) \<longrightarrow> distinct (map fst (files (snd (rename_loop E fs s)))))"
  using assms
proof (induction fs arbitrary: s)
  case Nil
  show ?case by (simp add: list_all2_same same_or_renamed_refl)
next
  case (Cons f fs)
  obtain r s1 where p: "process_file E f s = (r, s1)"
    by (cases "process_file E f s")
  from Cons.prems have f: "scan_match (udb E) f" and fs: "list_all (scan_match (udb E)) fs"
    by simp_all
  from process_file_same_or_renamed [OF f, of s] p have
    1: "list_all2 (same_or_renamed (udb E)) (files s) (files s1)"
       "distinct (map fst (files s)) \<longrightarrow> distinct (map fst (files s1))"
    by simp_all
  show ?case
  proof (cases r)
    case (Inl e)
    with p 1 show ?thesis by simp
  next
    case (Inr u)
    from Cons.IH [OF fs, of s1] have
      2: "list_all2 (same_or_renamed (udb E)) (files s1) (files (snd (rename_loop E fs s1)))"
         "distinct (map fst (files s1)) \<longrightarrow> distinct (map fst (files (snd (rename_loop E fs s1))))"
      by simp_all
    have "list_all2 (same_or_renamed (udb E)) (files s) (files (snd (rename_loop E fs s1)))"
      using same_or_renamed_trans 1(1) 2(1) by (rule list_all2_trans)
    with p Inr 1(2) 2(2) show ?thesis by simp
  qed
qed

lemma main_rename_same_or_renamed:
  "list_all2 (same_or_renamed (udb E)) (files s) (files (snd (main_rename E s))) \<and>
   (distinct (map fst (files s)) \<longrightarrow> distinct (map fst (files (snd (main_rename E s)))))"
proof -
  let ?fs = "sort_key (\<lambda>name. py_int (udb E) (split_dot_head name))
               (filter (scan_match (udb E)) (map fst (files s)))"
  have "list_all (scan_match (udb E)) ?fs"
    by (simp add: list_all_iff)
  from rename_loop_same_or_renamed [OF this, of s]
  show ?thesis
    by (auto simp: main_rename_def Let_def emit_def list_all2_same same_or_renamed_refl
             split: prod.splits sum.splits)
qed

lemma same_or_renamed_kept:
  assumes "list_all2 (same_or_renamed U) xs ys" and "(n, c) \<in> set xs" and "\<not> scan_match U n"
  shows "(n, c) \<in> set ys"
proof -
  from assms(2) obtain i where i: "i < length xs" "xs ! i = (n, c)"
    by (auto simp: in_set_conv_nth)
  with assms(1) have "same_or_renamed U (n, c) (ys ! i)" and l: "i < length ys"
    by (auto simp: list_all2_conv_all_nth)
  with assms(3) have "ys ! i = (n, c)"
    by (cases "ys ! i") (auto simp: same_or_renamed_def)
  with l show ?thesis by (metis nth_mem)
qed

text \<open>
  C8: a run of the renaming driver keeps every entry of the directory, in its place and
  with its content, and keeps the names distinct; an entry keeps its name or goes, once,
  from a name the scan matches to a name of the form \<^verbatim>\<open>{identifier}_....svg\<close>; the
  scan does not match a name \<^verbatim>\<open>{identifier}_{slug}.svg\<close>, so a file under such a name
  is still there, under this name, after any run.
\<close>

theorem renamed_at_most_once:
  "list_all2 (same_or_renamed (udb E)) (files s) (files (snd (main_rename E s))) \<and>
   (distinct (map fst (files s)) \<longrightarrow> distinct (map fst (files (snd (main_rename E s))))) \<and>
   (list_all (is_decimal (udb E)) icon_id \<longrightarrow>
      \<not> scan_match (udb E) (icon_id @ ustr ''_'' @ slug @ ustr ''.svg'')) \<and>
   (list_all (is_decimal (udb E)) icon_id \<and>
    (icon_id @ ustr ''_'' @ slug @ ustr ''.svg'', content) \<in> set (files s) \<longrightarrow>
      (icon_id @ ustr ''_'' @ slug @ ustr ''.svg'', content) \<in> set (files (snd (main_rename E s))))"
  using main_rename_same_or_renamed [of E s] post_name_not_scanned [of "udb E" icon_id slug]
    same_or_renamed_kept [of "udb E" "files s" "files (snd (main_rename E s))"
      "icon_id @ ustr ''_'' @ slug @ ustr ''.svg''" content]
  by blast

theorem renamed_at_most_once_witness:
  "list_all (is_decimal (udb sample_env)) (ustr ''201'') \<and>
   (ustr ''201_nubank.svg'', ustr ''<svg/>'') \<in> set (files collision) \<and>
   \<not> scan_match (udb sample_env) (ustr ''201_nubank.svg'') \<and>
   (ustr ''201_nubank.svg'', ustr ''<svg/>'') \<in> set (files (snd (main_rename sample_env collision)))"
proof -
  have 1: "list_all (is_decimal (udb sample_env)) (ustr ''201'')"
    by (simp add: sample_udb ustr_def is_decimal_def is_ascii_def)
  have 2: "(ustr ''201'' @ ustr ''_'' @ ustr ''nubank'' @ ustr ''.svg'', ustr ''<svg/>'')
             \<in> set (files collision)"
    unfolding sample_new_name by (simp add: collision_def)
  from 1 2 renamed_at_most_once [of sample_env collision "ustr ''201''" "ustr ''nubank''" "ustr ''<svg/>''"]
  show ?thesis
    unfolding sample_new_name by simp
qed

lemma sample_no_hints:
  "extract_hints sample_env (read_text sample_env (ustr ''<svg/>'')) = []"
  by (simp add: extract_hints_def sample_env_def ustr_def)

lemma sample_identify_202:
  "identify_institution sample_env (ustr ''202'') [] s =
     (Inr None, emit Slept (emit (Queried (ustr ''pluggy connector 202 svg bank'')) s))"
proof -
  have q: "ustr ''pluggy connector '' @ ustr ''202'' @ ustr '' svg bank'' = ustr ''pluggy connector 202 svg bank''"
    by (simp add: ustr_def)
  have f: "fetch_search_results sample_env w (ustr ''pluggy connector 202 svg bank'') = (Inr [], w)" for w
    by (simp add: sample_env_def ustr_def)
  show ?thesis
    by (simp add: identify_institution_spec identify_spec_def Let_def q f slug_of_titles_def world_unit)
qed

text \<open>
  The scenario of the specification: \<^verbatim>\<open>201.svg\<close> becomes \<^verbatim>\<open>201_nubank.svg\<close>, and
  \<^verbatim>\<open>202.svg\<close>, for which the search finds nothing, is skipped.
\<close>

lemma sample_run:
  "fst (main_rename sample_env two_files) = Inr 0 \<and>
   files (snd (main_rename sample_env two_files)) =
     [(ustr ''201_nubank.svg'', ustr ''<svg><title>Nubank</title></svg>''),
      (ustr ''202.svg'', ustr ''<svg/>'')] \<and>
   printed (trace (snd (main_rename sample_env two_files))) =
     [Renamed (ustr ''201.svg'') (ustr ''201_nubank.svg''), Skipped_no_match (ustr ''202.svg'')]"
proof -
  have d: "dir_exists two_files" by (simp add: two_files_def)
  have f: "filter (scan_match sample_db) (map fst (files two_files)) = [ustr ''201.svg'', ustr ''202.svg'']"
    by (simp add: two_files_def sample_scan)
  have s: "sort_key (\<lambda>name. py_int sample_db (split_dot_head name)) [ustr ''201.svg'', ustr ''202.svg'']
             = [ustr ''201.svg'', ustr ''202.svg'']"
    by (simp add: sample_keys)
  have m1: "map_of (files two_files) (ustr ''201.svg'') = Some (ustr ''<svg><title>Nubank</title></svg>'')"
    by (simp add: two_files_def ustr_def)
  have ne: "ustr ''nubank'' \<noteq> []" by (simp add: ustr_def)
  have nx: "ustr ''201_nubank.svg'' \<notin> fst ` set (files two_files)"
    by (simp add: two_files_def ustr_def)
  let ?s1 = "emit Slept (emit (Printed (Renamed (ustr ''201.svg'') (ustr ''201_nubank.svg'')))
               (rename_file (ustr ''201.svg'') (ustr ''201_nubank.svg'')
                  (emit (Queried (ustr ''pluggy connector 201 svg bank'')) two_files)))"
  have p1: "process_file sample_env (ustr ''201.svg'') two_files = (Inr (), ?s1)"
    unfolding process_file_def Let_def m1 sample_split_dot_head sample_hints sample_identify
    using nx by (simp add: ne sample_new_name emit_def)
  have fs1: "files ?s1 = [(ustr ''201_nubank.svg'', ustr ''<svg><title>Nubank</title></svg>''),
      (ustr ''202.svg'', ustr ''<svg/>'')]"
    by (simp add: emit_def rename_file_def two_files_def) (simp add: ustr_def)
  have m2: "map_of (files ?s1) (ustr ''202.svg'') = Some (ustr ''<svg/>'')"
    unfolding fs1 by (simp add: ustr_def)
  have sd: "split_dot_head (ustr ''202.svg'') = ustr ''202''"
    by (simp add: split_dot_head_def ustr_def)
  have p2: "process_file sample_env (ustr ''202.svg'') ?s1 =
     (Inr (), emit (Printed (Skipped_no_match (ustr ''202.svg'')))
        (emit Slept (emit (Queried (ustr ''pluggy connector 202 svg bank'')) ?s1)))"
    unfolding process_file_def Let_def m2 sd
    by (simp add: sample_no_hints sample_identify_202)
  let ?s2 = "emit (Printed (Skipped_no_match (ustr ''202.svg'')))
        (emit Slept (emit (Queried (ustr ''pluggy connector 202 svg bank'')) ?s1))"
  have m: "main_rename sample_env two_files = (Inr 0, ?s2)"
    unfolding main_rename_def Let_def sample_udb f s
    by (simp add: d p1 p2)
  have fs2: "files ?s2 = files ?s1"
    by (simp add: emit_def)
  have tr: "printed (trace ?s2) =
     [Renamed (ustr ''201.svg'') (ustr ''201_nubank.svg''), Skipped_no_match (ustr ''202.svg'')]"
    by (simp add: emit_def rename_file_def two_files_def)
  show ?thesis
    unfolding m using fs1 fs2 tr by simp
qed

end
